theory Spec2Isabelle
  imports Main
begin

section \<open>The cache of most recently used values (include/lsst/cpputils/Cache.h)\<close>

text \<open>
  The class \<^verbatim>\<open>Cache<Key, Value, KeyHash, KeyPred>\<close> holds a capacity \<^verbatim>\<open>_maxElements\<close>
  and a \<^verbatim>\<open>boost::multi_index_container\<close> of \<^verbatim>\<open>std::pair<Key, Value>\<close> with two indices:
  a sequenced index (tag \<^verbatim>\<open>Sequence\<close>), whose front is the most recently used element,
  and a \<^verbatim>\<open>hashed_unique\<close> index on the key (tag \<^verbatim>\<open>Hash\<close>). The container is modelled
  by the list of its elements in sequence order; the hashed index is a view of the same
  list, searched by key. \<^verbatim>\<open>std::size_t\<close> values are natural numbers: the class only
  compares them, it never computes with them. The build is the one of the header as it
  stands, with \<^verbatim>\<open>LSST_CACHE_DEBUG\<close> undefined.
\<close>

type_synonym ('k, 'v) Element = "'k \<times> 'v"

record ('k, 'v) cache =
  maxElements :: nat
  container :: "('k, 'v) Element list"

text \<open>The exception of \<^verbatim>\<open>operator[]\<close>; its message names the key.\<close>

datatype 'k exn = NotFoundError 'k

subsection \<open>The operations of the container that the class uses\<close>

text \<open>\<^verbatim>\<open>get<Hash>().find(key)\<close>: the element with that key, or \<^verbatim>\<open>end()\<close> (\<open>None\<close>).\<close>

definition hash_find :: "('k, 'v) Element list \<Rightarrow> 'k \<Rightarrow> ('k, 'v) Element option" where
  "hash_find xs key = List.find (\<lambda>e. fst e = key) xs"

text \<open>
  \<^verbatim>\<open>relocate(get<Sequence>().begin(), project<Sequence>(it))\<close>: the element that \<open>it\<close>
  points to is moved in front of the first position; nothing else moves.
\<close>

definition relocate_begin :: "('k, 'v) Element list \<Rightarrow> ('k, 'v) Element \<Rightarrow> ('k, 'v) Element list" where
  "relocate_begin xs e = e # remove1 e xs"

text \<open>\<^verbatim>\<open>get<Sequence>().pop_back()\<close>, called on a container that is not empty.\<close>

definition pop_back :: "('k, 'v) Element list \<Rightarrow> ('k, 'v) Element list" where
  "pop_back xs = butlast xs"

text \<open>
  \<^verbatim>\<open>get<Sequence>().emplace_front(key, value)\<close>: the unique hashed index refuses an
  element whose key is already there.
\<close>

definition emplace_front :: "('k, 'v) Element list \<Rightarrow> 'k \<Rightarrow> 'v \<Rightarrow> ('k, 'v) Element list" where
  "emplace_front xs key val =
     (case hash_find xs key of None \<Rightarrow> (key, val) # xs | Some e \<Rightarrow> xs)"

subsection \<open>The class\<close>

text \<open>\<^verbatim>\<open>Cache(std::size_t maxElements=0)\<close>\<close>

definition Cache :: "nat \<Rightarrow> ('k, 'v) cache" where
  "Cache n = \<lparr>maxElements = n, container = []\<rparr>"

text \<open>\<^verbatim>\<open>size()\<close> and \<^verbatim>\<open>capacity()\<close>\<close>

definition cache_size :: "('k, 'v) cache \<Rightarrow> nat" where
  "cache_size c = length (container c)"

definition capacity :: "('k, 'v) cache \<Rightarrow> nat" where
  "capacity c = maxElements c"

text \<open>\<^verbatim>\<open>_trim()\<close>: the loop, then the function with its early return.\<close>

function trim_loop :: "('k, 'v) cache \<Rightarrow> ('k, 'v) cache" where
  "trim_loop c =
     (if cache_size c > capacity c
      then trim_loop (c\<lparr>container := pop_back (container c)\<rparr>)
      else c)"
  by pat_completeness auto
termination
  by (relation "measure (\<lambda>c. length (container c))")
     (auto simp: cache_size_def capacity_def pop_back_def)

declare trim_loop.simps [simp del]

definition priv_trim :: "('k, 'v) cache \<Rightarrow> ('k, 'v) cache" where
  "priv_trim c = (if capacity c = 0 then c else trim_loop c)"

text \<open>
  \<^verbatim>\<open>_lookup(key)\<close>: returns the iterator and whether the key was found, and moves a
  found element to the front.
\<close>

definition priv_lookup ::
  "('k, 'v) cache \<Rightarrow> 'k \<Rightarrow> (('k, 'v) Element option \<times> bool) \<times> ('k, 'v) cache" where
  "priv_lookup c key =
     (case hash_find (container c) key of
        None \<Rightarrow> ((None, False), c)
      | Some e \<Rightarrow> ((Some e, True), c\<lparr>container := relocate_begin (container c) e\<rparr>))"

text \<open>\<^verbatim>\<open>_addNew(key, value)\<close>\<close>

definition priv_addNew :: "('k, 'v) cache \<Rightarrow> 'k \<Rightarrow> 'v \<Rightarrow> ('k, 'v) cache" where
  "priv_addNew c key val = priv_trim (c\<lparr>container := emplace_front (container c) key val\<rparr>)"

text \<open>
  \<^verbatim>\<open>operator()(key, func)\<close>. The generator is any callable: it may have effects of its
  own and it may throw. It is a function of the key and of the state \<open>g\<close> of whatever it
  touches outside the cache, returning the value or the exception it throws, and the new
  outside state. The result is the returned value or the propagated exception, the outside
  state, and the cache.
\<close>

definition operator_call ::
  "('k, 'v) cache \<Rightarrow> 'k \<Rightarrow> ('k \<Rightarrow> 'g \<Rightarrow> ('x + 'v) \<times> 'g) \<Rightarrow> 'g \<Rightarrow> ('x + 'v) \<times> 'g \<times> ('k, 'v) cache" where
  "operator_call c key func g =
     (case priv_lookup c key of
        (result, c1) \<Rightarrow>
          if snd result then (Inr (snd (the (fst result))), g, c1)
          else (case func key g of
                  (Inl x, g') \<Rightarrow> (Inl x, g', c1)
                | (Inr val, g') \<Rightarrow> (Inr val, g', priv_addNew c1 key val)))"

text \<open>\<^verbatim>\<open>operator[](key)\<close>\<close>

definition operator_index :: "('k, 'v) cache \<Rightarrow> 'k \<Rightarrow> ('k exn + 'v) \<times> ('k, 'v) cache" where
  "operator_index c key =
     (case priv_lookup c key of
        (result, c1) \<Rightarrow>
          if snd result then (Inr (snd (the (fst result))), c1)
          else (Inl (NotFoundError key), c1))"

text \<open>\<^verbatim>\<open>add(key, value)\<close>\<close>

definition add :: "('k, 'v) cache \<Rightarrow> 'k \<Rightarrow> 'v \<Rightarrow> ('k, 'v) cache" where
  "add c key val =
     (case priv_lookup c key of
        (result, c1) \<Rightarrow> if \<not> snd result then priv_addNew c1 key val else c1)"

text \<open>
  \<^verbatim>\<open>keys() const\<close>: the loop pushes the key of every element, front first. The method
  is \<open>const\<close>; the cache it leaves is returned with the keys.
\<close>

definition keys :: "('k, 'v) cache \<Rightarrow> 'k list \<times> ('k, 'v) cache" where
  "keys c = (foldl (\<lambda>result keyValue. result @ [fst keyValue]) [] (container c), c)"

text \<open>\<^verbatim>\<open>contains(key)\<close> and \<^verbatim>\<open>get(key)\<close>\<close>

definition contains :: "('k, 'v) cache \<Rightarrow> 'k \<Rightarrow> bool \<times> ('k, 'v) cache" where
  "contains c key = (case priv_lookup c key of (result, c1) \<Rightarrow> (snd result, c1))"

definition get :: "('k, 'v) cache \<Rightarrow> 'k \<Rightarrow> 'v option \<times> ('k, 'v) cache" where
  "get c key =
     (case priv_lookup c key of
        (result, c1) \<Rightarrow>
          if snd result then (Some (snd (the (fst result))), c1) else (None, c1))"

text \<open>\<^verbatim>\<open>reserve(maxElements)\<close>\<close>

definition reserve :: "('k, 'v) cache \<Rightarrow> nat \<Rightarrow> ('k, 'v) cache" where
  "reserve c n = priv_trim (c\<lparr>maxElements := n\<rparr>)"

text \<open>\<^verbatim>\<open>flush()\<close>\<close>

function flush :: "('k, 'v) cache \<Rightarrow> ('k, 'v) cache" where
  "flush c =
     (if cache_size c > 0
      then flush (c\<lparr>container := pop_back (container c)\<rparr>)
      else c)"
  by pat_completeness auto
termination
  by (relation "measure (\<lambda>c. length (container c))")
     (auto simp: cache_size_def pop_back_def)

declare flush.simps [simp del]

section \<open>Generators with a counter, sequences of calls, states of a cache object\<close>

text \<open>
  A generator with an observable effect: \<open>counted func\<close> behaves as \<open>func\<close> and counts its
  calls in a counter kept beside the outside state of \<open>func\<close>.
\<close>

definition counted ::
  "('k \<Rightarrow> 'g \<Rightarrow> ('x + 'v) \<times> 'g) \<Rightarrow> 'k \<Rightarrow> nat \<times> 'g \<Rightarrow> ('x + 'v) \<times> (nat \<times> 'g)" where
  "counted func key s = (case func key (snd s) of (r, g') \<Rightarrow> (r, (Suc (fst s), g')))"

text \<open>
  A call of \<^verbatim>\<open>add\<close> or of \<^verbatim>\<open>operator()\<close> with its arguments; \<open>step\<close> performs one call on
  the cache and the outside state of the generators, and \<open>run\<close> lists the states after
  each call of a sequence.
\<close>

datatype ('k, 'v, 'g, 'x) call =
  Add 'k 'v
| GetOrCompute 'k "'k \<Rightarrow> 'g \<Rightarrow> ('x + 'v) \<times> 'g"

fun step :: "('k, 'v) cache \<times> 'g \<Rightarrow> ('k, 'v, 'g, 'x) call \<Rightarrow> ('k, 'v) cache \<times> 'g" where
  "step (c, g) (Add key val) = (add c key val, g)"
| "step (c, g) (GetOrCompute key func) =
     (case operator_call c key func g of (r, g', c') \<Rightarrow> (c', g'))"

fun run :: "('k, 'v) cache \<times> 'g \<Rightarrow> ('k, 'v, 'g, 'x) call list \<Rightarrow> (('k, 'v) cache \<times> 'g) list" where
  "run s [] = []"
| "run s (x # xs) = step s x # run (step s x) xs"

fun call_key :: "('k, 'v, 'g, 'x) call \<Rightarrow> 'k" where
  "call_key (Add key val) = key"
| "call_key (GetOrCompute key func) = key"

text \<open>Whether the call has a value to insert when made in the outside state \<open>g\<close>.\<close>

fun yields :: "('k, 'v, 'g, 'x) call \<Rightarrow> 'g \<Rightarrow> bool" where
  "yields (Add key val) g = True"
| "yields (GetOrCompute key func) g = (case fst (func key g) of Inl x \<Rightarrow> False | Inr v \<Rightarrow> True)"

text \<open>
  The states of a cache object: what the constructor makes and what the public methods
  that change the object make of such a state. For \<^verbatim>\<open>operator()\<close> the cache after the call
  depends on the generator only through what it returns or throws, \<open>r\<close>.
\<close>

inductive reachable :: "('k, 'v) cache \<Rightarrow> bool" where
  r_Cache: "reachable (Cache n)"
| r_add: "reachable c \<Longrightarrow> reachable (add c key val)"
| r_call: "reachable c \<Longrightarrow> reachable (snd (snd (operator_call c key (\<lambda>k g. (r :: unit + 'v, g)) ())))"
| r_index: "reachable c \<Longrightarrow> reachable (snd (operator_index c key))"
| r_get: "reachable c \<Longrightarrow> reachable (snd (get c key))"
| r_contains: "reachable c \<Longrightarrow> reachable (snd (contains c key))"
| r_reserve: "reachable c \<Longrightarrow> reachable (reserve c n)"
| r_flush: "reachable c \<Longrightarrow> reachable (flush c)"

text \<open>The capacity bound, as a property of a state.\<close>

definition bounded :: "('k, 'v) cache \<Rightarrow> bool" where
  "bounded c \<longleftrightarrow> (0 < capacity c \<longrightarrow> cache_size c \<le> capacity c)"

section \<open>What the loops compute\<close>

lemma take_pop_back: "n < length xs \<Longrightarrow> take n (pop_back xs) = take n xs"
  by (simp add: pop_back_def take_butlast)

lemma trim_loop_take: "trim_loop c = c\<lparr>container := take (capacity c) (container c)\<rparr>"
proof (induction c rule: trim_loop.induct)
  case (1 c)
  show ?case
  proof (cases "cache_size c > capacity c")
    case True
    then have "n < length (container c)" if "n = capacity c" for n
      using that by (simp add: cache_size_def)
    then have "take (capacity c) (pop_back (container c)) = take (capacity c) (container c)"
      by (simp add: take_pop_back)
    with True "1.IH" show ?thesis
      by (subst trim_loop.simps) (simp add: capacity_def)
  next
    case False
    then show ?thesis
      by (subst trim_loop.simps) (simp add: cache_size_def)
  qed
qed

lemma flush_container: "flush c = c\<lparr>container := []\<rparr>"
proof (induction c rule: flush.induct)
  case (1 c)
  show ?case
  proof (cases "cache_size c > 0")
    case True
    with "1.IH" show ?thesis
      by (subst flush.simps) simp
  next
    case False
    then show ?thesis
      by (subst flush.simps) (simp add: cache_size_def)
  qed
qed

section \<open>The two indices\<close>

lemma hash_find_Nil: "hash_find [] k = None"
  by (simp add: hash_find_def)

lemma hash_find_Cons:
  "hash_find (x # xs) k = (if fst x = k then Some x else hash_find xs k)"
  by (simp add: hash_find_def)

lemma hash_find_None: "hash_find xs k = None \<longleftrightarrow> k \<notin> set (map fst xs)"
  by (induction xs) (auto simp: hash_find_Nil hash_find_Cons)

lemma hash_find_Some: "hash_find xs k = Some e \<Longrightarrow> fst e = k \<and> e \<in> set xs"
  by (induction xs) (auto simp: hash_find_Nil hash_find_Cons split: if_splits)

lemma hash_find_remove1_other:
  "fst e \<noteq> k \<Longrightarrow> hash_find (remove1 e xs) k = hash_find xs k"
  by (induction xs) (auto simp: hash_find_Cons)

lemma hash_find_relocate:
  assumes "hash_find xs k0 = Some e"
  shows "hash_find (relocate_begin xs e) k = hash_find xs k"
proof (cases "k = k0")
  case True
  with assms hash_find_Some [OF assms] show ?thesis
    by (simp add: relocate_begin_def hash_find_Cons)
next
  case False
  with hash_find_Some [OF assms] show ?thesis
    by (simp add: relocate_begin_def hash_find_Cons hash_find_remove1_other)
qed

lemma map_fst_remove1:
  "hash_find xs k = Some e \<Longrightarrow> map fst (remove1 e xs) = remove1 k (map fst xs)"
  by (induction xs) (auto simp: hash_find_Cons split: if_splits dest: hash_find_Some)

lemma length_relocate: "e \<in> set xs \<Longrightarrow> length (relocate_begin xs e) = length xs"
  using length_pos_if_in_set [of e xs] by (simp add: relocate_begin_def length_remove1)

lemma set_relocate: "e \<in> set xs \<Longrightarrow> set (relocate_begin xs e) = set xs"
  by (induction xs) (auto simp: relocate_begin_def)

lemma relocate_twice: "relocate_begin (relocate_begin xs e) e = relocate_begin xs e"
  by (simp add: relocate_begin_def)

lemma keys_loop: "foldl (\<lambda>result keyValue. result @ [fst keyValue]) acc xs = acc @ map fst xs"
  by (induction xs arbitrary: acc) auto

lemma keys_map: "fst (keys c) = map fst (container c)"
  by (simp add: keys_def keys_loop)

section \<open>Each operation on a hit and on a miss\<close>

lemma priv_lookup_miss:
  "hash_find (container c) k = None \<Longrightarrow> priv_lookup c k = ((None, False), c)"
  by (simp add: priv_lookup_def)

lemma priv_lookup_hit:
  "hash_find (container c) k = Some e \<Longrightarrow>
   priv_lookup c k = ((Some e, True), c\<lparr>container := relocate_begin (container c) e\<rparr>)"
  by (simp add: priv_lookup_def)

lemma priv_trim_eq:
  "priv_trim c =
     c\<lparr>container := (if capacity c = 0 then container c else take (capacity c) (container c))\<rparr>"
  by (simp add: priv_trim_def trim_loop_take)

lemma priv_addNew_miss:
  "hash_find (container c) k = None \<Longrightarrow>
   priv_addNew c k v =
     c\<lparr>container := (if capacity c = 0 then (k, v) # container c
                      else take (capacity c) ((k, v) # container c))\<rparr>"
  by (simp add: priv_addNew_def emplace_front_def priv_trim_eq capacity_def)

lemma add_miss:
  "hash_find (container c) k = None \<Longrightarrow>
   add c k v =
     c\<lparr>container := (if capacity c = 0 then (k, v) # container c
                      else take (capacity c) ((k, v) # container c))\<rparr>"
  by (simp add: add_def priv_lookup_miss priv_addNew_miss)

lemma add_hit:
  "hash_find (container c) k = Some e \<Longrightarrow>
   add c k v = c\<lparr>container := relocate_begin (container c) e\<rparr>"
  by (simp add: add_def priv_lookup_hit)

lemma operator_index_miss:
  "hash_find (container c) k = None \<Longrightarrow> operator_index c k = (Inl (NotFoundError k), c)"
  by (simp add: operator_index_def priv_lookup_miss)

lemma operator_index_hit:
  "hash_find (container c) k = Some e \<Longrightarrow>
   operator_index c k = (Inr (snd e), c\<lparr>container := relocate_begin (container c) e\<rparr>)"
  by (simp add: operator_index_def priv_lookup_hit)

lemma get_miss: "hash_find (container c) k = None \<Longrightarrow> get c k = (None, c)"
  by (simp add: get_def priv_lookup_miss)

lemma get_hit:
  "hash_find (container c) k = Some e \<Longrightarrow>
   get c k = (Some (snd e), c\<lparr>container := relocate_begin (container c) e\<rparr>)"
  by (simp add: get_def priv_lookup_hit)

lemma contains_miss: "hash_find (container c) k = None \<Longrightarrow> contains c k = (False, c)"
  by (simp add: contains_def priv_lookup_miss)

lemma contains_hit:
  "hash_find (container c) k = Some e \<Longrightarrow>
   contains c k = (True, c\<lparr>container := relocate_begin (container c) e\<rparr>)"
  by (simp add: contains_def priv_lookup_hit)

lemma operator_call_hit:
  "hash_find (container c) k = Some e \<Longrightarrow>
   operator_call c k func g = (Inr (snd e), g, c\<lparr>container := relocate_begin (container c) e\<rparr>)"
  by (simp add: operator_call_def priv_lookup_hit)

lemma operator_call_miss_throw:
  "hash_find (container c) k = None \<Longrightarrow> func k g = (Inl x, g') \<Longrightarrow>
   operator_call c k func g = (Inl x, g', c)"
  by (simp add: operator_call_def priv_lookup_miss)

lemma operator_call_miss_value:
  "hash_find (container c) k = None \<Longrightarrow> func k g = (Inr v, g') \<Longrightarrow>
   operator_call c k func g =
     (Inr v, g', c\<lparr>container := (if capacity c = 0 then (k, v) # container c
                                  else take (capacity c) ((k, v) # container c))\<rparr>)"
  by (simp add: operator_call_def priv_lookup_miss priv_addNew_miss)

lemma contains_iff: "fst (contains c k) \<longleftrightarrow> k \<in> set (fst (keys c))"
proof (cases "hash_find (container c) k")
  case None
  then show ?thesis
    using hash_find_None [of "container c" k] by (simp add: contains_miss keys_map)
next
  case (Some e)
  then show ?thesis
    using hash_find_None [of "container c" k] by (simp add: contains_hit keys_map)
qed

lemma get_stored: "fst (get c k) = map_option snd (hash_find (container c) k)"
  by (cases "hash_find (container c) k") (simp_all add: get_miss get_hit)

lemma keys_after_relocate:
  "hash_find xs k = Some e \<Longrightarrow> map fst (relocate_begin xs e) = k # remove1 k (map fst xs)"
  using hash_find_Some [of xs k e] by (simp add: relocate_begin_def map_fst_remove1)

lemma present_find: "k \<in> set (fst (keys c)) \<Longrightarrow> \<exists>e. hash_find (container c) k = Some e"
  using hash_find_None [of "container c" k] by (cases "hash_find (container c) k") (simp_all add: keys_map)

lemmas cache_eval = add_def operator_index_def get_def contains_def operator_call_def
  priv_lookup_def priv_addNew_def emplace_front_def priv_trim_eq hash_find_Cons hash_find_Nil
  relocate_begin_def capacity_def cache_size_def Cache_def keys_map reserve_def flush_container

section \<open>Recency order and eviction\<close>

text \<open>
  C3. Any access promotes to the head and eviction removes the tail. In general: an access
  to a present key \<open>k\<close> by \<^verbatim>\<open>operator[]\<close>, \<^verbatim>\<open>get\<close>, \<^verbatim>\<open>contains\<close>, \<^verbatim>\<open>operator()\<close> or \<^verbatim>\<open>add\<close>
  leaves \<open>keys()\<close> equal to \<open>k\<close> followed by the former keys without \<open>k\<close>, and \<^verbatim>\<open>_trim\<close>
  leaves a front segment of the sequence. In the two scenarios, with distinct keys
  \<open>A\<close>, \<open>B\<close>, \<open>C\<close> and a capacity of 2: after inserting \<open>A\<close>, \<open>B\<close>, \<open>C\<close> the size is 2 and the
  keys are \<open>[C, B]\<close>; after inserting \<open>A\<close>, \<open>B\<close> the keys are \<open>[B, A]\<close>, the lookup of \<open>A\<close>
  returns its value and makes them \<open>[A, B]\<close>, and inserting \<open>C\<close> then leaves \<open>[C, A]\<close>.
\<close>

theorem lru_order_and_promotion:
  "(k \<in> set (fst (keys c)) \<longrightarrow>
      fst (keys (snd (operator_index c k))) = k # remove1 k (fst (keys c)) \<and>
      fst (keys (snd (get c k))) = k # remove1 k (fst (keys c)) \<and>
      fst (keys (snd (contains c k))) = k # remove1 k (fst (keys c)) \<and>
      fst (keys (snd (snd (operator_call c k func g)))) = k # remove1 k (fst (keys c)) \<and>
      fst (keys (add c k v)) = k # remove1 k (fst (keys c))) \<and>
   container (priv_trim c) = take (cache_size (priv_trim c)) (container c) \<and>
   (A \<noteq> B \<and> A \<noteq> C \<and> B \<noteq> C \<longrightarrow>
      cache_size (add (add (add (Cache 2) A va) B vb) C vc) = 2 \<and>
      fst (keys (add (add (add (Cache 2) A va) B vb) C vc)) = [C, B] \<and>
      fst (keys (add (add (Cache 2) A va) B vb)) = [B, A] \<and>
      fst (operator_index (add (add (Cache 2) A va) B vb) A) = Inr va \<and>
      fst (keys (snd (operator_index (add (add (Cache 2) A va) B vb) A))) = [A, B] \<and>
      fst (keys (add (snd (operator_index (add (add (Cache 2) A va) B vb) A)) C vc)) = [C, A])"
proof (intro conjI impI)
  assume "k \<in> set (fst (keys c))"
  from present_find [OF this] obtain e where e: "hash_find (container c) k = Some e"
    by auto
  show "fst (keys (snd (operator_index c k))) = k # remove1 k (fst (keys c))"
    by (simp add: operator_index_hit [OF e] keys_map keys_after_relocate [OF e])
  show "fst (keys (snd (get c k))) = k # remove1 k (fst (keys c))"
    by (simp add: get_hit [OF e] keys_map keys_after_relocate [OF e])
  show "fst (keys (snd (contains c k))) = k # remove1 k (fst (keys c))"
    by (simp add: contains_hit [OF e] keys_map keys_after_relocate [OF e])
  show "fst (keys (snd (snd (operator_call c k func g)))) = k # remove1 k (fst (keys c))"
    by (simp add: operator_call_hit [OF e] keys_map keys_after_relocate [OF e])
  show "fst (keys (add c k v)) = k # remove1 k (fst (keys c))"
    by (simp add: add_hit [OF e] keys_map keys_after_relocate [OF e])
next
  show "container (priv_trim c) = take (cache_size (priv_trim c)) (container c)"
    by (simp add: priv_trim_eq cache_size_def min_def)
next
  assume d: "A \<noteq> B \<and> A \<noteq> C \<and> B \<noteq> C"
  have ab: "add (add (Cache 2) A va) B vb = \<lparr>maxElements = 2, container = [(B, vb), (A, va)]\<rparr>"
    using d by (auto simp: cache_eval)
  have abc: "add (add (add (Cache 2) A va) B vb) C vc = \<lparr>maxElements = 2, container = [(C, vc), (B, vb)]\<rparr>"
    using d by (simp add: ab) (auto simp: cache_eval)
  have look: "operator_index (add (add (Cache 2) A va) B vb) A =
                (Inr va, \<lparr>maxElements = 2, container = [(A, va), (B, vb)]\<rparr>)"
    using d by (simp add: ab) (auto simp: cache_eval)
  show "cache_size (add (add (add (Cache 2) A va) B vb) C vc) = 2"
    by (simp add: abc cache_size_def)
  show "fst (keys (add (add (add (Cache 2) A va) B vb) C vc)) = [C, B]"
    by (simp add: abc keys_map)
  show "fst (keys (add (add (Cache 2) A va) B vb)) = [B, A]"
    by (simp add: ab keys_map)
  show "fst (operator_index (add (add (Cache 2) A va) B vb) A) = Inr va"
    by (simp add: look)
  show "fst (keys (snd (operator_index (add (add (Cache 2) A va) B vb) A))) = [A, B]"
    by (simp add: look keys_map)
  show "fst (keys (add (snd (operator_index (add (add (Cache 2) A va) B vb) A)) C vc)) = [C, A]"
    using d by (simp add: look) (auto simp: cache_eval)
qed

theorem lru_order_and_promotion_witness:
  "''A'' \<in> set (fst (keys (add (add (Cache 2) ''A'' (10::nat)) ''B'' 20))) \<and>
   fst (keys (snd (get (add (add (Cache 2) ''A'' (10::nat)) ''B'' 20) ''A''))) = [''A'', ''B''] \<and>
   (''A'' \<noteq> ''B'' \<and> ''A'' \<noteq> ''C'' \<and> ''B'' \<noteq> ''C'') \<and>
   cache_size (add (add (add (Cache 2) ''A'' (10::nat)) ''B'' 20) ''C'' 30) = 2 \<and>
   fst (keys (add (add (add (Cache 2) ''A'' (10::nat)) ''B'' 20) ''C'' 30)) = [''C'', ''B''] \<and>
   fst (keys (add (snd (operator_index (add (add (Cache 2) ''A'' (10::nat)) ''B'' 20) ''A'')) ''C'' 30))
     = [''C'', ''A'']"
proof -
  have p: "''A'' \<in> set (fst (keys (add (add (Cache 2) ''A'' (10::nat)) ''B'' 20)))"
    by (simp add: cache_eval)
  have d: "''A'' \<noteq> ''B'' \<and> ''A'' \<noteq> ''C'' \<and> ''B'' \<noteq> ''C''"
    by simp
  have k: "fst (keys (add (add (Cache 2) ''A'' (10::nat)) ''B'' 20)) = [''B'', ''A'']"
    by (simp add: cache_eval)
  note t = lru_order_and_promotion [where k = "''A''" and c = "add (add (Cache 2) ''A'' (10::nat)) ''B'' 20"
       and func = "\<lambda>k g. (Inr (0::nat), g)" and g = "()" and v = "0::nat"
       and A = "''A''" and B = "''B''" and C = "''C''"
       and va = "10::nat" and vb = "20::nat" and vc = "30::nat"]
  have "fst (keys (snd (get (add (add (Cache 2) ''A'' (10::nat)) ''B'' 20) ''A'')))
          = ''A'' # remove1 ''A'' (fst (keys (add (add (Cache 2) ''A'' (10::nat)) ''B'' 20)))"
    using t p by blast
  then have a: "fst (keys (snd (get (add (add (Cache 2) ''A'' (10::nat)) ''B'' 20) ''A''))) = [''A'', ''B'']"
    by (simp add: k)
  from t d p a show ?thesis
    by blast
qed

section \<open>Changing the capacity, emptying the cache, listing the keys\<close>

text \<open>
  C6. \<^verbatim>\<open>reserve(newCapacity)\<close> sets the capacity to \<open>newCapacity\<close> and then removes elements
  from the back of the sequence until the size is at most \<open>newCapacity\<close>: what is left is
  the front segment of that length, and no more is removed than needed. With
  \<open>newCapacity = 0\<close> nothing is removed. In particular, when the keys are \<open>[A, B, C, D]\<close>
  and the capacity is 4, \<^verbatim>\<open>reserve(2)\<close> leaves the keys \<open>[A, B]\<close>.
\<close>

theorem reserve_evicts_from_tail:
  "capacity (reserve c n) = n \<and>
   container (reserve c n) = (if n = 0 then container c else take n (container c)) \<and>
   fst (keys (reserve c n)) = (if n = 0 then fst (keys c) else take n (fst (keys c))) \<and>
   cache_size (reserve c n) = (if n = 0 then cache_size c else min (cache_size c) n) \<and>
   (0 < n \<longrightarrow> cache_size (reserve c n) \<le> n) \<and>
   (capacity c = 4 \<and> fst (keys c) = [A, B, C, D] \<longrightarrow> fst (keys (reserve c 2)) = [A, B])"
proof -
  have cont: "container (reserve c m) = (if m = 0 then container c else take m (container c))" for m
    by (simp add: reserve_def priv_trim_eq capacity_def)
  have cap: "capacity (reserve c n) = n"
    by (simp add: reserve_def priv_trim_eq capacity_def)
  have ks: "fst (keys (reserve c m)) = (if m = 0 then fst (keys c) else take m (fst (keys c)))" for m
    by (simp add: keys_map cont take_map)
  have sz: "cache_size (reserve c n) = (if n = 0 then cache_size c else min (cache_size c) n)"
    by (simp add: cache_size_def cont)
  have ex: "fst (keys (reserve c 2)) = [A, B]" if "fst (keys c) = [A, B, C, D]"
    using that by (simp add: ks)
  from cap cont ks sz ex show ?thesis
    by simp
qed

theorem reserve_evicts_from_tail_witness:
  "capacity (reserve (Cache 4) 4 :: (string, nat) cache) = 4 \<and>
   fst (keys (add (add (add (add (Cache 4) ''D'' (40::nat)) ''C'' 30) ''B'' 20) ''A'' 10))
     = [''A'', ''B'', ''C'', ''D''] \<and>
   0 < (2::nat) \<and>
   cache_size (reserve (add (add (add (add (Cache 4) ''D'' (40::nat)) ''C'' 30) ''B'' 20) ''A'' 10) 2) \<le> 2 \<and>
   fst (keys (reserve (add (add (add (add (Cache 4) ''D'' (40::nat)) ''C'' 30) ''B'' 20) ''A'' 10) 2))
     = [''A'', ''B'']"
proof -
  have c: "add (add (add (add (Cache 4) ''D'' (40::nat)) ''C'' 30) ''B'' 20) ''A'' 10
             = \<lparr>maxElements = 4, container = [(''A'', 10), (''B'', 20), (''C'', 30), (''D'', 40)]\<rparr>"
    by (simp add: cache_eval)
  have h1: "capacity (add (add (add (add (Cache 4) ''D'' (40::nat)) ''C'' 30) ''B'' 20) ''A'' 10) = 4"
    by (simp add: c capacity_def)
  have h2: "fst (keys (add (add (add (add (Cache 4) ''D'' (40::nat)) ''C'' 30) ''B'' 20) ''A'' 10))
              = [''A'', ''B'', ''C'', ''D'']"
    by (simp add: c keys_map)
  have h3: "0 < (2::nat)"
    by simp
  have h4: "capacity (reserve (Cache 4) 4 :: (string, nat) cache) = 4"
    by (simp add: cache_eval)
  note t = reserve_evicts_from_tail
             [where c = "add (add (add (add (Cache 4) ''D'' (40::nat)) ''C'' 30) ''B'' 20) ''A'' 10"
                and n = 2 and A = "''A''" and B = "''B''" and C = "''C''" and D = "''D''"]
  from t h1 h2 h3 h4 show ?thesis
    by blast
qed

text \<open>
  C7. \<^verbatim>\<open>flush()\<close> removes every element and leaves the capacity as it was: afterwards the
  size is 0, there are no keys, and \<^verbatim>\<open>operator[]\<close> on any key, so on every key that was
  present, throws \<^verbatim>\<open>NotFoundError\<close> and leaves the cache empty.
\<close>

theorem flush_clears_all:
  "capacity (flush c) = capacity c \<and>
   cache_size (flush c) = 0 \<and>
   fst (keys (flush c)) = [] \<and>
   operator_index (flush c) k = (Inl (NotFoundError k), flush c) \<and>
   fst (contains (flush c) k) = False \<and>
   fst (get (flush c) k) = None"
  by (simp add: flush_container capacity_def cache_size_def keys_map
        operator_index_miss contains_miss get_miss hash_find_Nil)

theorem flush_clears_all_witness:
  "fst (operator_index (add (add (Cache 2) ''A'' (10::nat)) ''B'' 20) ''A'') = Inr 10 \<and>
   capacity (flush (add (add (Cache 2) ''A'' (10::nat)) ''B'' 20)) = 2 \<and>
   cache_size (flush (add (add (Cache 2) ''A'' (10::nat)) ''B'' 20)) = 0 \<and>
   fst (operator_index (flush (add (add (Cache 2) ''A'' (10::nat)) ''B'' 20)) ''A'')
     = Inl (NotFoundError ''A'')"
proof -
  have b: "fst (operator_index (add (add (Cache 2) ''A'' (10::nat)) ''B'' 20) ''A'') = Inr 10"
    by (simp add: cache_eval)
  have cp: "capacity (add (add (Cache 2) ''A'' (10::nat)) ''B'' 20) = 2"
    by (simp add: cache_eval)
  note t = flush_clears_all [where c = "add (add (Cache 2) ''A'' (10::nat)) ''B'' 20" and k = "''A''"]
  from t b show ?thesis
    by (simp add: cp)
qed

text \<open>
  C8. \<^verbatim>\<open>keys()\<close> returns the keys of all elements in sequence order, the most recently
  used first, and does not change the cache: the cache after the call is the cache before
  it, so the elements, their order, the size and the capacity are the same, and the
  result has \<^verbatim>\<open>size()\<close> entries. The front of the sequence is the most recently used key:
  right after an access that finds \<open>k\<close>, the first key returned is \<open>k\<close>.
\<close>

theorem keys_snapshot:
  "snd (keys c) = c \<and>
   container (snd (keys c)) = container c \<and>
   cache_size (snd (keys c)) = cache_size c \<and>
   capacity (snd (keys c)) = capacity c \<and>
   fst (keys c) = map fst (container c) \<and>
   length (fst (keys c)) = cache_size c \<and>
   fst (keys (snd (keys c))) = fst (keys c) \<and>
   (fst (contains c k) \<longrightarrow> hd (fst (keys (snd (contains c k)))) = k)"
proof -
  have "hd (fst (keys (snd (contains c k)))) = k" if "fst (contains c k)"
  proof -
    from that have "k \<in> set (fst (keys c))"
      by (simp add: contains_iff)
    from present_find [OF this] obtain e where e: "hash_find (container c) k = Some e"
      by auto
    show ?thesis
      by (simp add: contains_hit [OF e] keys_map keys_after_relocate [OF e])
  qed
  then show ?thesis
    by (simp add: keys_def keys_loop cache_size_def)
qed

theorem keys_snapshot_witness:
  "fst (contains (add (add (Cache 2) ''A'' (10::nat)) ''B'' 20) ''A'') \<and>
   fst (keys (add (add (Cache 2) ''A'' (10::nat)) ''B'' 20)) = [''B'', ''A''] \<and>
   snd (keys (add (add (Cache 2) ''A'' (10::nat)) ''B'' 20)) = add (add (Cache 2) ''A'' (10::nat)) ''B'' 20 \<and>
   hd (fst (keys (snd (contains (add (add (Cache 2) ''A'' (10::nat)) ''B'' 20) ''A'')))) = ''A''"
proof -
  have h: "fst (contains (add (add (Cache 2) ''A'' (10::nat)) ''B'' 20) ''A'')"
    by (simp add: cache_eval)
  have k: "fst (keys (add (add (Cache 2) ''A'' (10::nat)) ''B'' 20)) = [''B'', ''A'']"
    by (simp add: cache_eval)
  note t = keys_snapshot [where c = "add (add (Cache 2) ''A'' (10::nat)) ''B'' 20" and k = "''A''"]
  from t h k show ?thesis
    by blast
qed

section \<open>The state after an access\<close>

lemma promoted_find:
  assumes "hash_find (container c) k = Some e"
  shows "hash_find (container (c\<lparr>container := relocate_begin (container c) e\<rparr>)) k' =
         hash_find (container c) k'"
  by (simp add: hash_find_relocate [OF assms])

lemma promoted_again:
  assumes "hash_find (container c) k = Some e"
  shows "(c\<lparr>container := relocate_begin (container c) e\<rparr>)
           \<lparr>container := relocate_begin (container (c\<lparr>container := relocate_begin (container c) e\<rparr>)) e\<rparr>
         = c\<lparr>container := relocate_begin (container c) e\<rparr>"
  by (simp add: relocate_twice)

lemma head_find:
  "container c = e # xs \<Longrightarrow> hash_find (container c) (fst e) = Some e \<and> relocate_begin (container c) e = container c"
  by (simp add: hash_find_Cons relocate_begin_def)

lemma inserted_find:
  "hash_find (if n = 0 then (k, v) # xs else take n ((k, v) # xs)) k = Some (k, v)"
  by (cases n) (simp_all add: hash_find_Cons)

lemma inserted_keys:
  "map fst (if n = 0 then (k, v) # xs else take n ((k, v) # xs)) =
   k # (if n = 0 then map fst xs else take (n - 1) (map fst xs))"
  by (cases n) (simp_all add: take_map)

lemma absent_find: "k \<notin> set (fst (keys c)) \<Longrightarrow> hash_find (container c) k = None"
  by (simp add: hash_find_None keys_map)

lemma get_Some_find: "fst (get c k) = Some v \<Longrightarrow> \<exists>e. hash_find (container c) k = Some e \<and> snd e = v"
  by (cases "hash_find (container c) k") (simp_all add: get_stored)

lemma get_None_find: "fst (get c k) = None \<Longrightarrow> hash_find (container c) k = None"
  by (simp add: get_stored)

lemma inserted_front_keys:
  assumes "container c' = (if n = 0 then (k, v) # container c else take n ((k, v) # container c))"
  shows "fst (keys c') = k # (if n = 0 then fst (keys c) else take (n - 1) (fst (keys c)))"
  unfolding keys_map assms inserted_keys ..

lemma inserted_front_get:
  assumes "container c' = (if n = 0 then (k, v) # container c else take n ((k, v) # container c))"
  shows "fst (get c' k) = Some v"
  unfolding get_stored assms inserted_find by simp

lemma add_miss_container:
  "hash_find (container c) k = None \<Longrightarrow>
   container (add c k v) =
     (if capacity c = 0 then (k, v) # container c else take (capacity c) ((k, v) # container c))"
  by (simp add: add_miss)

lemma add_miss_trim:
  "hash_find (container c) k = None \<Longrightarrow>
   add c k v = priv_trim (c\<lparr>container := (k, v) # container c\<rparr>)"
  by (simp add: add_miss priv_trim_eq capacity_def)

section \<open>Adding a key\<close>

text \<open>
  C4. \<^verbatim>\<open>add(key, value)\<close> on a key that is present (\<^verbatim>\<open>get\<close> finds a value \<open>v0\<close> for it)
  moves its element to the front, keeps \<open>v0\<close> as the stored value whatever \<open>value\<close> is,
  leaves the value of every other key and the size as they were. On an absent key it puts
  the new element at the front and trims. So after \<^verbatim>\<open>add(K, V1)\<close> and \<^verbatim>\<open>add(K, V2)\<close> the
  value stored for \<open>K\<close> is the one stored after the first call, which is \<open>V1\<close> when \<open>K\<close> was
  absent before it, and the second call does not change the size.
\<close>

theorem add_first_value_wins:
  "(fst (get (c :: ('k, 'v) cache) k) = Some v0 \<longrightarrow>
      fst (get (add c k v) k) = Some v0 \<and>
      fst (get (add c k v) k') = fst (get c k') \<and>
      fst (keys (add c k v)) = k # remove1 k (fst (keys c)) \<and>
      cache_size (add c k v) = cache_size c \<and>
      capacity (add c k v) = capacity c) \<and>
   (fst (get c k) = None \<longrightarrow>
      add c k v = priv_trim (c\<lparr>container := (k, v) # container c\<rparr>) \<and>
      fst (keys (add c k v)) =
        k # (if capacity c = 0 then fst (keys c) else take (capacity c - 1) (fst (keys c))) \<and>
      fst (get (add c k v) k) = Some v) \<and>
   fst (get (add (add c k V1) k V2) k) = fst (get (add c k V1) k) \<and>
   cache_size (add (add c k V1) k V2) = cache_size (add c k V1) \<and>
   (fst (get c k) = None \<longrightarrow> fst (get (add (add c k V1) k V2) k) = Some V1)"
proof -
  have hit: "fst (get (add c k v) k') = fst (get c k') \<and>
             fst (keys (add c k v)) = k # remove1 k (fst (keys c)) \<and>
             cache_size (add c k v) = cache_size c \<and>
             capacity (add c k v) = capacity c"
    if e: "hash_find (container c) k = Some e" for c :: "('k, 'v) cache" and v k' e
    using hash_find_Some [OF e]
    by (simp add: add_hit [OF e] get_stored hash_find_relocate [OF e] keys_map
          keys_after_relocate [OF e] cache_size_def length_relocate capacity_def)
  have miss: "add c k v = priv_trim (c\<lparr>container := (k, v) # container c\<rparr>) \<and>
              fst (keys (add c k v)) =
                k # (if capacity c = 0 then fst (keys c) else take (capacity c - 1) (fst (keys c))) \<and>
              fst (get (add c k v) k) = Some v"
    if n: "hash_find (container c) k = None" for c :: "('k, 'v) cache" and v
    using add_miss_trim [OF n] inserted_front_keys [OF add_miss_container [OF n]]
      inserted_front_get [OF add_miss_container [OF n]]
    by blast
  have present_after: "\<exists>e. hash_find (container (add c k V1)) k = Some e"
  proof (cases "hash_find (container c) k")
    case None
    show ?thesis
      unfolding add_miss_container [OF None] inserted_find by blast
  next
    case (Some e)
    then show ?thesis
      by (simp add: add_hit [OF Some] hash_find_relocate [OF Some])
  qed
  then obtain e1 where e1: "hash_find (container (add c k V1)) k = Some e1"
    by auto
  have p1: "fst (get c k) = Some v0 \<longrightarrow>
      fst (get (add c k v) k) = Some v0 \<and>
      fst (get (add c k v) k') = fst (get c k') \<and>
      fst (keys (add c k v)) = k # remove1 k (fst (keys c)) \<and>
      cache_size (add c k v) = cache_size c \<and>
      capacity (add c k v) = capacity c"
  proof
    assume g: "fst (get c k) = Some v0"
    from get_Some_find [OF g] obtain e where e: "hash_find (container c) k = Some e"
      by auto
    from hit [OF e, of v k] hit [OF e, of v k'] g
    show "fst (get (add c k v) k) = Some v0 \<and>
      fst (get (add c k v) k') = fst (get c k') \<and>
      fst (keys (add c k v)) = k # remove1 k (fst (keys c)) \<and>
      cache_size (add c k v) = cache_size c \<and>
      capacity (add c k v) = capacity c"
      by simp
  qed
  have p2: "fst (get c k) = None \<longrightarrow>
      add c k v = priv_trim (c\<lparr>container := (k, v) # container c\<rparr>) \<and>
      fst (keys (add c k v)) =
        k # (if capacity c = 0 then fst (keys c) else take (capacity c - 1) (fst (keys c))) \<and>
      fst (get (add c k v) k) = Some v"
  proof
    assume "fst (get c k) = None"
    from miss [OF get_None_find [OF this]]
    show "add c k v = priv_trim (c\<lparr>container := (k, v) # container c\<rparr>) \<and>
      fst (keys (add c k v)) =
        k # (if capacity c = 0 then fst (keys c) else take (capacity c - 1) (fst (keys c))) \<and>
      fst (get (add c k v) k) = Some v" .
  qed
  have p3: "fst (get (add (add c k V1) k V2) k) = fst (get (add c k V1) k)"
    using hit [OF e1, of V2 k] by simp
  have p4: "cache_size (add (add c k V1) k V2) = cache_size (add c k V1)"
    using hit [OF e1, of V2 k] by simp
  have p5: "fst (get c k) = None \<longrightarrow> fst (get (add (add c k V1) k V2) k) = Some V1"
  proof
    assume "fst (get c k) = None"
    from miss [OF get_None_find [OF this], of V1]
    have "fst (get (add c k V1) k) = Some V1"
      by (elim conjE)
    with p3 show "fst (get (add (add c k V1) k V2) k) = Some V1"
      by (simp only:)
  qed
  from p1 p2 p3 p4 p5 show ?thesis
    by (intro conjI)
qed

theorem add_first_value_wins_witness:
  "fst (get (Cache 2 :: (string, nat) cache) ''K'') = None \<and>
   fst (get (add (Cache 2) ''K'' (10::nat)) ''K'') = Some 10 \<and>
   fst (get (add (add (Cache 2) ''K'' (10::nat)) ''K'' 20) ''K'') = Some 10 \<and>
   cache_size (add (add (Cache 2) ''K'' (10::nat)) ''K'' 20) = cache_size (add (Cache 2) ''K'' (10::nat)) \<and>
   fst (keys (add (add (Cache 2) ''K'' (10::nat)) ''K'' 20)) = [''K'']"
proof -
  have h1: "fst (get (Cache 2 :: (string, nat) cache) ''K'') = None"
    by (simp add: cache_eval)
  have h2: "fst (get (add (Cache 2) ''K'' (10::nat)) ''K'') = Some 10"
    by (simp add: cache_eval)
  have k: "fst (keys (add (Cache 2) ''K'' (10::nat))) = [''K'']"
    by (simp add: cache_eval)
  note t1 = add_first_value_wins [where c = "Cache 2 :: (string, nat) cache" and k = "''K''"
              and k' = "''K''" and v = 10 and ?v0.0 = 10 and ?V1.0 = 10 and ?V2.0 = 20]
  note t2 = add_first_value_wins [where c = "add (Cache 2) ''K'' (10::nat)" and k = "''K''"
              and k' = "''K''" and v = 20 and ?v0.0 = 10 and ?V1.0 = 10 and ?V2.0 = 20]
  from t1 h1 have a: "fst (get (add (add (Cache 2) ''K'' (10::nat)) ''K'' 20) ''K'') = Some 10"
    by blast
  from t2 h2 have b: "cache_size (add (add (Cache 2) ''K'' (10::nat)) ''K'' 20)
                        = cache_size (add (Cache 2) ''K'' (10::nat))"
    by blast
  from t2 h2 have "fst (keys (add (add (Cache 2) ''K'' (10::nat)) ''K'' 20))
                     = ''K'' # remove1 ''K'' (fst (keys (add (Cache 2) ''K'' (10::nat))))"
    by blast
  then have c: "fst (keys (add (add (Cache 2) ''K'' (10::nat)) ''K'' 20)) = [''K'']"
    by (simp add: k)
  from h1 h2 a b c show ?thesis
    by (intro conjI)
qed

section \<open>Failures\<close>

text \<open>
  C5. \<^verbatim>\<open>NotFoundError\<close> is thrown by \<^verbatim>\<open>operator[]\<close> exactly when the key is absent; on a
  present key \<^verbatim>\<open>operator[]\<close> returns the stored value and promotes the key. \<^verbatim>\<open>get\<close> and
  \<^verbatim>\<open>contains\<close> contain no throw and return for every key: on an absent key \<^verbatim>\<open>get\<close>
  returns the empty optional and \<^verbatim>\<open>contains\<close> returns false, and the cache is unchanged.
  \<^verbatim>\<open>operator()\<close> has no throw of its own either: whenever it ends in an exception, the
  key was absent and the exception is the one the generator threw, passed on as it is;
  when the generator returns a value, so does \<^verbatim>\<open>operator()\<close>.
\<close>

theorem NotFound_only_from_operator_index:
  "((\<exists>x. fst (operator_index (c :: ('k, 'v) cache) k) = Inl x) \<longleftrightarrow> k \<notin> set (fst (keys c))) \<and>
   (fst (operator_index c k) = Inl (NotFoundError k) \<longleftrightarrow> \<not> fst (contains c k)) \<and>
   (k \<notin> set (fst (keys c)) \<longrightarrow>
      operator_index c k = (Inl (NotFoundError k), c) \<and>
      get c k = (None, c) \<and>
      contains c k = (False, c)) \<and>
   (fst (get c k) = Some v \<longrightarrow>
      fst (operator_index c k) = Inr v \<and>
      snd (operator_index c k) = snd (get c k) \<and>
      fst (contains c k) \<and>
      fst (keys (snd (operator_index c k))) = k # remove1 k (fst (keys c))) \<and>
   (fst (operator_call c k func g) = Inl y \<longrightarrow>
      fst (func k g) = Inl y \<and> k \<notin> set (fst (keys c))) \<and>
   (fst (func k g) = Inr w \<longrightarrow> (\<exists>w'. fst (operator_call c k func g) = Inr w'))"
proof -
  have miss: "operator_index c k = (Inl (NotFoundError k), c) \<and> get c k = (None, c) \<and>
              contains c k = (False, c)"
    if "k \<notin> set (fst (keys c))"
    using absent_find [OF that] by (simp add: operator_index_miss get_miss contains_miss)
  have hit: "fst (operator_index c k) = Inr (snd e) \<and>
             snd (operator_index c k) = snd (get c k) \<and>
             fst (get c k) = Some (snd e) \<and>
             fst (contains c k) \<and>
             fst (keys (snd (operator_index c k))) = k # remove1 k (fst (keys c)) \<and>
             fst (operator_call c k func g) = Inr (snd e)"
    if e: "hash_find (container c) k = Some e" for e
    by (simp add: operator_index_hit [OF e] get_hit [OF e] contains_hit [OF e]
          operator_call_hit [OF e] keys_map keys_after_relocate [OF e])
  have cases: "k \<notin> set (fst (keys c)) \<or> (\<exists>e. hash_find (container c) k = Some e)"
    using present_find [of k c] by blast
  have p1: "(\<exists>x. fst (operator_index c k) = Inl x) \<longleftrightarrow> k \<notin> set (fst (keys c))"
  proof
    assume "\<exists>x. fst (operator_index c k) = Inl x"
    with hit cases show "k \<notin> set (fst (keys c))"
      by auto
  next
    assume "k \<notin> set (fst (keys c))"
    from miss [OF this] show "\<exists>x. fst (operator_index c k) = Inl x"
      by simp
  qed
  have p2: "fst (operator_index c k) = Inl (NotFoundError k) \<longleftrightarrow> \<not> fst (contains c k)"
    using p1 miss by (auto simp: contains_iff)
  have p3: "k \<notin> set (fst (keys c)) \<longrightarrow>
      operator_index c k = (Inl (NotFoundError k), c) \<and>
      get c k = (None, c) \<and>
      contains c k = (False, c)"
    using miss by (rule impI)
  have p4: "fst (get c k) = Some v \<longrightarrow>
      fst (operator_index c k) = Inr v \<and>
      snd (operator_index c k) = snd (get c k) \<and>
      fst (contains c k) \<and>
      fst (keys (snd (operator_index c k))) = k # remove1 k (fst (keys c))"
  proof
    assume g: "fst (get c k) = Some v"
    from get_Some_find [OF g] obtain e where e: "hash_find (container c) k = Some e" and v: "snd e = v"
      by auto
    from hit [OF e, unfolded v]
    show "fst (operator_index c k) = Inr v \<and>
      snd (operator_index c k) = snd (get c k) \<and>
      fst (contains c k) \<and>
      fst (keys (snd (operator_index c k))) = k # remove1 k (fst (keys c))"
      by blast
  qed
  have p5: "fst (operator_call c k func g) = Inl y \<longrightarrow>
      fst (func k g) = Inl y \<and> k \<notin> set (fst (keys c))"
  proof
    assume y: "fst (operator_call c k func g) = Inl y"
    with hit cases have a: "k \<notin> set (fst (keys c))"
      by auto
    obtain r g' where f: "func k g = (r, g')"
      by (cases "func k g")
    from y f absent_find [OF a] have "r = Inl y"
      by (cases r) (simp_all add: operator_call_miss_throw operator_call_miss_value)
    with f a show "fst (func k g) = Inl y \<and> k \<notin> set (fst (keys c))"
      by simp
  qed
  have p6: "fst (func k g) = Inr w \<longrightarrow> (\<exists>w'. fst (operator_call c k func g) = Inr w')"
  proof
    assume w: "fst (func k g) = Inr w"
    then obtain g' where f: "func k g = (Inr w, g')"
      by (cases "func k g") simp
    from cases show "\<exists>w'. fst (operator_call c k func g) = Inr w'"
    proof
      assume "k \<notin> set (fst (keys c))"
      from operator_call_miss_value [of c k func g w g', OF absent_find [OF this] f] show ?thesis
        by simp
    next
      assume "\<exists>e. hash_find (container c) k = Some e"
      with hit show ?thesis
        by auto
    qed
  qed
  from p1 p2 p3 p4 p5 p6 show ?thesis
    by (intro conjI)
qed

theorem NotFound_only_from_operator_index_witness:
  "''Z'' \<notin> set (fst (keys (add (Cache 2) ''A'' (10::nat)))) \<and>
   operator_index (add (Cache 2) ''A'' (10::nat)) ''Z''
     = (Inl (NotFoundError ''Z''), add (Cache 2) ''A'' 10) \<and>
   get (add (Cache 2) ''A'' (10::nat)) ''Z'' = (None, add (Cache 2) ''A'' 10) \<and>
   contains (add (Cache 2) ''A'' (10::nat)) ''Z'' = (False, add (Cache 2) ''A'' 10) \<and>
   fst (get (add (Cache 2) ''A'' (10::nat)) ''A'') = Some 10 \<and>
   fst (operator_index (add (Cache 2) ''A'' (10::nat)) ''A'') = Inr 10 \<and>
   fst (operator_call (add (Cache 2) ''A'' (10::nat)) ''Z'' (\<lambda>k g. (Inl ''boom'', g)) ()) = Inl ''boom'' \<and>
   fst ((\<lambda>k g. (Inl ''boom'' :: string + nat, g)) ''Z'' ()) = Inl ''boom'' \<and>
   fst ((\<lambda>k g. (Inr 7 :: string + nat, g)) ''Z'' ()) = Inr 7 \<and>
   (\<exists>w'. fst (operator_call (add (Cache 2) ''A'' (10::nat)) ''Z'' (\<lambda>k g. (Inr 7 :: string + nat, g)) ()) = Inr w')"
proof -
  have h1: "''Z'' \<notin> set (fst (keys (add (Cache 2) ''A'' (10::nat))))"
    by (simp add: cache_eval)
  have h2: "fst (get (add (Cache 2) ''A'' (10::nat)) ''A'') = Some 10"
    by (simp add: cache_eval)
  have h3: "fst (operator_call (add (Cache 2) ''A'' (10::nat)) ''Z'' (\<lambda>k g. (Inl ''boom'', g)) ()) = Inl ''boom''"
    by (simp add: cache_eval)
  have h4: "fst ((\<lambda>k g. (Inr 7 :: string + nat, g)) ''Z'' ()) = Inr 7"
    by simp
  note t1 = NotFound_only_from_operator_index [where c = "add (Cache 2) ''A'' (10::nat)" and k = "''Z''"
      and v = 10 and func = "\<lambda>k g. (Inl ''boom'' :: string + nat, g)" and g = "()" and y = "''boom''" and w = 7]
  note t2 = NotFound_only_from_operator_index [where c = "add (Cache 2) ''A'' (10::nat)" and k = "''A''"
      and v = 10 and func = "\<lambda>k g. (Inl ''boom'' :: string + nat, g)" and g = "()" and y = "''boom''" and w = 7]
  note t3 = NotFound_only_from_operator_index [where c = "add (Cache 2) ''A'' (10::nat)" and k = "''Z''"
      and v = 10 and func = "\<lambda>k g. (Inr 7 :: string + nat, g)" and g = "()" and y = "''boom''" and w = 7]
  from t1 h1 have a: "operator_index (add (Cache 2) ''A'' (10::nat)) ''Z''
     = (Inl (NotFoundError ''Z''), add (Cache 2) ''A'' 10) \<and>
   get (add (Cache 2) ''A'' (10::nat)) ''Z'' = (None, add (Cache 2) ''A'' 10) \<and>
   contains (add (Cache 2) ''A'' (10::nat)) ''Z'' = (False, add (Cache 2) ''A'' 10)"
    by blast
  from t2 h2 have b: "fst (operator_index (add (Cache 2) ''A'' (10::nat)) ''A'') = Inr 10"
    by blast
  from t1 h3 have c: "fst ((\<lambda>k g. (Inl ''boom'' :: string + nat, g)) ''Z'' ()) = Inl ''boom''"
    by blast
  from t3 h4
  have d: "\<exists>w'. fst (operator_call (add (Cache 2) ''A'' (10::nat)) ''Z'' (\<lambda>k g. (Inr 7 :: string + nat, g)) ()) = Inr w'"
    by blast
  from h1 a h2 b h3 c h4 d show ?thesis
    by (intro conjI) blast+
qed

section \<open>A new element and its own trim\<close>

text \<open>
  C9. A newly inserted element is never removed by the trim that its own insertion
  triggers. For every cache with capacity at least 1, right after \<^verbatim>\<open>add(k, v)\<close> with \<open>k\<close>
  absent before, or after a call of \<^verbatim>\<open>operator()\<close> that misses \<open>k\<close> and whose generator returns
  \<open>v\<close>, the key \<open>k\<close> is present with value \<open>v\<close> and is the first of \<open>keys()\<close>; the keys behind
  it are the former keys cut to one less than the capacity. The same holds for the
  unbounded capacity 0, where nothing is cut.
\<close>

theorem new_entry_survives_trim:
  "(1 \<le> capacity (c :: ('k, 'v) cache) \<and> k \<notin> set (fst (keys c)) \<longrightarrow>
      fst (contains (add c k v) k) \<and>
      fst (get (add c k v) k) = Some v \<and>
      hd (fst (keys (add c k v))) = k \<and>
      fst (keys (add c k v)) = k # take (capacity c - 1) (fst (keys c))) \<and>
   (1 \<le> capacity c \<and> k \<notin> set (fst (keys c)) \<and> func k g = (Inr v, g') \<longrightarrow>
      fst (contains (snd (snd (operator_call c k func g))) k) \<and>
      fst (get (snd (snd (operator_call c k func g))) k) = Some v \<and>
      hd (fst (keys (snd (snd (operator_call c k func g))))) = k \<and>
      fst (keys (snd (snd (operator_call c k func g)))) = k # take (capacity c - 1) (fst (keys c))) \<and>
   (capacity c = 0 \<and> k \<notin> set (fst (keys c)) \<longrightarrow>
      fst (keys (add c k v)) = k # fst (keys c) \<and>
      (func k g = (Inr v, g') \<longrightarrow>
         fst (keys (snd (snd (operator_call c k func g)))) = k # fst (keys c)))"
proof -
  have ins: "fst (contains c' k) \<and> fst (get c' k) = Some v \<and> hd (fst (keys c')) = k \<and>
             fst (keys c') = k # (if capacity c = 0 then fst (keys c)
                                  else take (capacity c - 1) (fst (keys c)))"
    if c': "container c' = (if capacity c = 0 then (k, v) # container c
                            else take (capacity c) ((k, v) # container c))"
    for c' :: "('k, 'v) cache"
  proof -
    note ks = inserted_front_keys [OF c']
    have "k \<in> set (fst (keys c'))"
      unfolding ks by simp
    then have "fst (contains c' k)"
      by (simp add: contains_iff)
    moreover have "hd (fst (keys c')) = k"
      unfolding ks by simp
    ultimately show ?thesis
      using inserted_front_get [OF c'] ks by blast
  qed
  have a: "fst (contains (add c k v) k) \<and> fst (get (add c k v) k) = Some v \<and>
           hd (fst (keys (add c k v))) = k \<and>
           fst (keys (add c k v)) = k # (if capacity c = 0 then fst (keys c)
                                         else take (capacity c - 1) (fst (keys c)))"
    if "k \<notin> set (fst (keys c))"
    by (rule ins [OF add_miss_container [OF absent_find [OF that]]])
  have b: "fst (contains (snd (snd (operator_call c k func g))) k) \<and>
           fst (get (snd (snd (operator_call c k func g))) k) = Some v \<and>
           hd (fst (keys (snd (snd (operator_call c k func g))))) = k \<and>
           fst (keys (snd (snd (operator_call c k func g)))) =
             k # (if capacity c = 0 then fst (keys c) else take (capacity c - 1) (fst (keys c)))"
    if "k \<notin> set (fst (keys c))" and f: "func k g = (Inr v, g')"
  proof (rule ins)
    show "container (snd (snd (operator_call c k func g))) =
            (if capacity c = 0 then (k, v) # container c
             else take (capacity c) ((k, v) # container c))"
      by (simp add: operator_call_miss_value [of c k func g v g', OF absent_find [OF that(1)] f])
  qed
  have p1: "1 \<le> capacity c \<and> k \<notin> set (fst (keys c)) \<longrightarrow>
      fst (contains (add c k v) k) \<and>
      fst (get (add c k v) k) = Some v \<and>
      hd (fst (keys (add c k v))) = k \<and>
      fst (keys (add c k v)) = k # take (capacity c - 1) (fst (keys c))"
    using a by auto
  have p2: "1 \<le> capacity c \<and> k \<notin> set (fst (keys c)) \<and> func k g = (Inr v, g') \<longrightarrow>
      fst (contains (snd (snd (operator_call c k func g))) k) \<and>
      fst (get (snd (snd (operator_call c k func g))) k) = Some v \<and>
      hd (fst (keys (snd (snd (operator_call c k func g))))) = k \<and>
      fst (keys (snd (snd (operator_call c k func g)))) = k # take (capacity c - 1) (fst (keys c))"
    using b by auto
  have p3: "capacity c = 0 \<and> k \<notin> set (fst (keys c)) \<longrightarrow>
      fst (keys (add c k v)) = k # fst (keys c) \<and>
      (func k g = (Inr v, g') \<longrightarrow>
         fst (keys (snd (snd (operator_call c k func g)))) = k # fst (keys c))"
    using a b by auto
  from p1 p2 p3 show ?thesis
    by (intro conjI)
qed

theorem new_entry_survives_trim_witness:
  "(1 \<le> capacity (add (Cache 1) ''A'' (10::nat)) \<and>
    ''B'' \<notin> set (fst (keys (add (Cache 1) ''A'' (10::nat)))) \<and>
    (\<lambda>k g. (Inr 20 :: string + nat, g + 1)) ''B'' (0::nat) = (Inr 20, 1)) \<and>
   fst (get (add (add (Cache 1) ''A'' (10::nat)) ''B'' 20) ''B'') = Some 20 \<and>
   fst (keys (add (add (Cache 1) ''A'' (10::nat)) ''B'' 20)) = [''B''] \<and>
   fst (keys (snd (snd (operator_call (add (Cache 1) ''A'' (10::nat)) ''B''
                          (\<lambda>k g. (Inr 20 :: string + nat, g + 1)) (0::nat))))) = [''B''] \<and>
   (capacity (add (Cache 0) ''A'' (10::nat)) = 0 \<and>
    ''B'' \<notin> set (fst (keys (add (Cache 0) ''A'' (10::nat))))) \<and>
   fst (keys (add (add (Cache 0) ''A'' (10::nat)) ''B'' 20)) = [''B'', ''A'']"
proof -
  have h1: "1 \<le> capacity (add (Cache 1) ''A'' (10::nat)) \<and>
            ''B'' \<notin> set (fst (keys (add (Cache 1) ''A'' (10::nat)))) \<and>
            (\<lambda>k g. (Inr 20 :: string + nat, g + 1)) ''B'' (0::nat) = (Inr 20, 1)"
    by (simp add: cache_eval)
  have h2: "capacity (add (Cache 0) ''A'' (10::nat)) = 0 \<and>
            ''B'' \<notin> set (fst (keys (add (Cache 0) ''A'' (10::nat))))"
    by (simp add: cache_eval)
  have k1: "take (capacity (add (Cache 1) ''A'' (10::nat)) - 1) (fst (keys (add (Cache 1) ''A'' (10::nat)))) = []"
    by (simp add: cache_eval)
  have k2: "fst (keys (add (Cache 0) ''A'' (10::nat))) = [''A'']"
    by (simp add: cache_eval)
  note t1 = new_entry_survives_trim [where c = "add (Cache 1) ''A'' (10::nat)" and k = "''B''" and v = 20
      and func = "\<lambda>k g. (Inr 20 :: string + nat, g + 1)" and g = "0::nat" and g' = "1::nat"]
  note t2 = new_entry_survives_trim [where c = "add (Cache 0) ''A'' (10::nat)" and k = "''B''" and v = 20
      and func = "\<lambda>k g. (Inr 20 :: string + nat, g + 1)" and g = "0::nat" and g' = "1::nat"]
  from t1 h1 have a: "fst (get (add (add (Cache 1) ''A'' (10::nat)) ''B'' 20) ''B'') = Some 20"
    by blast
  from t1 h1 have "fst (keys (add (add (Cache 1) ''A'' (10::nat)) ''B'' 20))
      = ''B'' # take (capacity (add (Cache 1) ''A'' (10::nat)) - 1) (fst (keys (add (Cache 1) ''A'' (10::nat))))"
    by blast
  then have b: "fst (keys (add (add (Cache 1) ''A'' (10::nat)) ''B'' 20)) = [''B'']"
    unfolding k1 .
  from t1 h1 have "fst (keys (snd (snd (operator_call (add (Cache 1) ''A'' (10::nat)) ''B''
                          (\<lambda>k g. (Inr 20 :: string + nat, g + 1)) (0::nat)))))
      = ''B'' # take (capacity (add (Cache 1) ''A'' (10::nat)) - 1) (fst (keys (add (Cache 1) ''A'' (10::nat))))"
    by blast
  then have c: "fst (keys (snd (snd (operator_call (add (Cache 1) ''A'' (10::nat)) ''B''
                          (\<lambda>k g. (Inr 20 :: string + nat, g + 1)) (0::nat))))) = [''B'']"
    unfolding k1 .
  from t2 h2 have "fst (keys (add (add (Cache 0) ''A'' (10::nat)) ''B'' 20))
      = ''B'' # fst (keys (add (Cache 0) ''A'' (10::nat)))"
    by blast
  then have d: "fst (keys (add (add (Cache 0) ''A'' (10::nat)) ''B'' 20)) = [''B'', ''A'']"
    unfolding k2 .
  from h1 a b c h2 d show ?thesis
    by (intro conjI) blast+
qed

section \<open>Promoting twice\<close>

text \<open>
  C10. Promotion is idempotent. For every cache and every key \<open>k\<close> present in it, the four
  promoting accesses (\<^verbatim>\<open>contains\<close>, \<^verbatim>\<open>get\<close>, \<^verbatim>\<open>operator[]\<close>, \<^verbatim>\<open>operator()\<close>) leave one and
  the same cache, with the same elements as before and \<open>k\<close> first; doing any of them a second
  time leaves that cache as it is, so the elements and the order of \<open>keys()\<close> are those after
  the first access, and the second access returns what the first returned. In particular,
  an access to the key that is already first leaves the cache, and so \<open>keys()\<close>, unchanged.
\<close>

theorem promotion_idempotent:
  "(k \<in> set (fst (keys (c :: ('k, 'v) cache))) \<longrightarrow>
      snd (contains (snd (contains c k)) k) = snd (contains c k) \<and>
      snd (get (snd (get c k)) k) = snd (get c k) \<and>
      snd (operator_index (snd (operator_index c k)) k) = snd (operator_index c k) \<and>
      snd (snd (operator_call (snd (snd (operator_call c k func g))) k func' g1))
        = snd (snd (operator_call c k func g)) \<and>
      snd (get c k) = snd (contains c k) \<and>
      snd (operator_index c k) = snd (contains c k) \<and>
      snd (snd (operator_call c k func g)) = snd (contains c k) \<and>
      fst (get (snd (get c k)) k) = fst (get c k) \<and>
      fst (operator_index (snd (operator_index c k)) k) = fst (operator_index c k) \<and>
      set (container (snd (contains c k))) = set (container c) \<and>
      fst (keys (snd (contains c k))) = k # remove1 k (fst (keys c)) \<and>
      fst (keys (snd (contains (snd (contains c k)) k))) = fst (keys (snd (contains c k)))) \<and>
   (fst (keys c) = k # ks \<longrightarrow>
      snd (contains c k) = c \<and> snd (get c k) = c \<and> snd (operator_index c k) = c \<and>
      snd (snd (operator_call c k func g)) = c \<and>
      fst (keys (snd (contains c k))) = fst (keys c))"
proof -
  have once: "snd (contains c k) = c\<lparr>container := relocate_begin (container c) e\<rparr> \<and>
              snd (get c k) = c\<lparr>container := relocate_begin (container c) e\<rparr> \<and>
              snd (operator_index c k) = c\<lparr>container := relocate_begin (container c) e\<rparr> \<and>
              snd (snd (operator_call c k f s)) = c\<lparr>container := relocate_begin (container c) e\<rparr> \<and>
              fst (get c k) = Some (snd e) \<and> fst (operator_index c k) = Inr (snd e)"
    if e: "hash_find (container c) k = Some e"
    for c :: "('k, 'v) cache" and e and f :: "'k \<Rightarrow> 's \<Rightarrow> ('x + 'v) \<times> 's" and s
    by (simp add: contains_hit [OF e] get_hit [OF e] operator_index_hit [OF e] operator_call_hit [OF e])
  have p1: "snd (contains (snd (contains c k)) k) = snd (contains c k) \<and>
      snd (get (snd (get c k)) k) = snd (get c k) \<and>
      snd (operator_index (snd (operator_index c k)) k) = snd (operator_index c k) \<and>
      snd (snd (operator_call (snd (snd (operator_call c k func g))) k func' g1))
        = snd (snd (operator_call c k func g)) \<and>
      snd (get c k) = snd (contains c k) \<and>
      snd (operator_index c k) = snd (contains c k) \<and>
      snd (snd (operator_call c k func g)) = snd (contains c k) \<and>
      fst (get (snd (get c k)) k) = fst (get c k) \<and>
      fst (operator_index (snd (operator_index c k)) k) = fst (operator_index c k) \<and>
      set (container (snd (contains c k))) = set (container c) \<and>
      fst (keys (snd (contains c k))) = k # remove1 k (fst (keys c)) \<and>
      fst (keys (snd (contains (snd (contains c k)) k))) = fst (keys (snd (contains c k)))"
    if "k \<in> set (fst (keys c))"
  proof -
    from present_find [OF that] obtain e where e: "hash_find (container c) k = Some e"
      by auto
    define c1 where "c1 = c\<lparr>container := relocate_begin (container c) e\<rparr>"
    have e1: "hash_find (container c1) k = Some e"
      unfolding c1_def using promoted_find [OF e, of k] e by simp
    have again: "c1\<lparr>container := relocate_begin (container c1) e\<rparr> = c1"
      unfolding c1_def by (rule promoted_again [OF e])
    note o1 = once [OF e, of func g, folded c1_def]
    note o2 = once [OF e1, of func' g1, unfolded again]
    have s: "set (container c1) = set (container c)"
      unfolding c1_def using hash_find_Some [OF e] by (simp add: set_relocate)
    have ks: "fst (keys c1) = k # remove1 k (fst (keys c))"
      unfolding c1_def by (simp add: keys_map keys_after_relocate [OF e])
    from o1 have a: "snd (contains c k) = c1" "snd (get c k) = c1" "snd (operator_index c k) = c1"
      "snd (snd (operator_call c k func g)) = c1" "fst (get c k) = Some (snd e)"
      "fst (operator_index c k) = Inr (snd e)"
      by blast+
    from o2 have b: "snd (contains c1 k) = c1" "snd (get c1 k) = c1" "snd (operator_index c1 k) = c1"
      "snd (snd (operator_call c1 k func' g1)) = c1" "fst (get c1 k) = Some (snd e)"
      "fst (operator_index c1 k) = Inr (snd e)"
      by blast+
    show ?thesis
      unfolding a b using s ks by simp
  qed
  have p2: "snd (contains c k) = c \<and> snd (get c k) = c \<and> snd (operator_index c k) = c \<and>
      snd (snd (operator_call c k func g)) = c \<and>
      fst (keys (snd (contains c k))) = fst (keys c)"
    if "fst (keys c) = k # ks"
  proof -
    from that obtain e xs where c: "container c = e # xs" and k: "fst e = k"
      by (auto simp: keys_map)
    from head_find [OF c] k have e: "hash_find (container c) k = Some e"
      and r: "relocate_begin (container c) e = container c"
      by simp_all
    have same: "c\<lparr>container := relocate_begin (container c) e\<rparr> = c"
      unfolding r by simp
    from once [OF e, of func g, unfolded same] show ?thesis
      by simp
  qed
  from p1 p2 show ?thesis
    by blast
qed

theorem promotion_idempotent_witness:
  "''A'' \<in> set (fst (keys (add (add (Cache 2) ''A'' (10::nat)) ''B'' 20))) \<and>
   fst (keys (add (add (Cache 2) ''A'' (10::nat)) ''B'' 20)) = [''B'', ''A''] \<and>
   fst (keys (snd (contains (add (add (Cache 2) ''A'' (10::nat)) ''B'' 20) ''A''))) = [''A'', ''B''] \<and>
   fst (keys (snd (contains (snd (contains (add (add (Cache 2) ''A'' (10::nat)) ''B'' 20) ''A'')) ''A''))) = [''A'', ''B''] \<and>
   snd (get (snd (get (add (add (Cache 2) ''A'' (10::nat)) ''B'' 20) ''A'')) ''A'') = snd (get (add (add (Cache 2) ''A'' (10::nat)) ''B'' 20) ''A'') \<and>
   fst (keys (add (add (Cache 2) ''A'' (10::nat)) ''B'' 20)) = ''B'' # [''A''] \<and>
   snd (operator_index (add (add (Cache 2) ''A'' (10::nat)) ''B'' 20) ''B'') = (add (add (Cache 2) ''A'' (10::nat)) ''B'' 20)"
proof -
  have h1: "''A'' \<in> set (fst (keys (add (add (Cache 2) ''A'' (10::nat)) ''B'' 20)))"
    by (simp add: cache_eval)
  have k: "fst (keys (add (add (Cache 2) ''A'' (10::nat)) ''B'' 20)) = [''B'', ''A'']"
    by (simp add: cache_eval)
  have h2: "fst (keys (add (add (Cache 2) ''A'' (10::nat)) ''B'' 20)) = ''B'' # [''A'']"
    by (simp add: cache_eval)
  note t1 = promotion_idempotent [where c = "(add (add (Cache 2) ''A'' (10::nat)) ''B'' 20)" and k = "''A''" and ks = "[]"
      and func = "\<lambda>k g. (Inr 0 :: string + nat, g)" and g = "()"
      and func' = "\<lambda>k g. (Inr 0 :: string + nat, g)" and ?g1.0 = "()"]
  note t2 = promotion_idempotent [where c = "(add (add (Cache 2) ''A'' (10::nat)) ''B'' 20)" and k = "''B''" and ks = "[''A'']"
      and func = "\<lambda>k g. (Inr 0 :: string + nat, g)" and g = "()"
      and func' = "\<lambda>k g. (Inr 0 :: string + nat, g)" and ?g1.0 = "()"]
  from t1 h1 have "fst (keys (snd (contains (add (add (Cache 2) ''A'' (10::nat)) ''B'' 20) ''A''))) = ''A'' # remove1 ''A'' (fst (keys (add (add (Cache 2) ''A'' (10::nat)) ''B'' 20)))"
    by blast
  then have a: "fst (keys (snd (contains (add (add (Cache 2) ''A'' (10::nat)) ''B'' 20) ''A''))) = [''A'', ''B'']"
    unfolding k by simp
  from t1 h1 have "fst (keys (snd (contains (snd (contains (add (add (Cache 2) ''A'' (10::nat)) ''B'' 20) ''A'')) ''A'')))
                     = fst (keys (snd (contains (add (add (Cache 2) ''A'' (10::nat)) ''B'' 20) ''A'')))"
    by blast
  then have b: "fst (keys (snd (contains (snd (contains (add (add (Cache 2) ''A'' (10::nat)) ''B'' 20) ''A'')) ''A''))) = [''A'', ''B'']"
    unfolding a .
  from t1 h1 have c: "snd (get (snd (get (add (add (Cache 2) ''A'' (10::nat)) ''B'' 20) ''A'')) ''A'') = snd (get (add (add (Cache 2) ''A'' (10::nat)) ''B'' 20) ''A'')"
    by blast
  from t2 h2 have d: "snd (operator_index (add (add (Cache 2) ''A'' (10::nat)) ''B'' 20) ''B'') = (add (add (Cache 2) ''A'' (10::nat)) ''B'' 20)"
    by blast
  from h1 k a b c h2 d show ?thesis
    by (intro conjI)
qed

section \<open>Looking up or generating a value\<close>

lemma counted_apply: "func k g = (r, g') \<Longrightarrow> counted func k (n, g) = (r, (Suc n, g'))"
  by (simp add: counted_def)

lemma inserted_Cons:
  "(if n = 0 then (k, v) # xs else take n ((k, v) # xs)) =
   (k, v) # (if n = 0 then xs else take (n - 1) xs)"
  by (cases n) simp_all

lemma operator_call_miss_value_trim:
  assumes "hash_find (container c) k = None" and "func k g = (Inr v, g')"
  shows "operator_call c k func g = (Inr v, g', priv_trim (c\<lparr>container := (k, v) # container c\<rparr>))"
  by (simp add: operator_call_miss_value [of c k func g v g', OF assms] priv_trim_eq capacity_def)

lemma operator_call_again:
  assumes n: "hash_find (container c) k = None" and f: "func k g = (Inr v, g')"
  shows "operator_call (snd (snd (operator_call c k func g))) k func' s =
           (Inr v, s, snd (snd (operator_call c k func g)))"
proof -
  define c1 where "c1 = snd (snd (operator_call c k func g))"
  have "container c1 = (if capacity c = 0 then (k, v) # container c
                        else take (capacity c) ((k, v) # container c))"
    unfolding c1_def by (simp add: operator_call_miss_value [of c k func g v g', OF n f])
  then obtain xs where xs: "container c1 = (k, v) # xs"
    unfolding inserted_Cons by blast
  from head_find [OF xs] have e: "hash_find (container c1) k = Some (k, v)"
    and r: "relocate_begin (container c1) (k, v) = container c1"
    by simp_all
  have "operator_call c1 k func' s = (Inr v, s, c1)"
    unfolding operator_call_hit [OF e] r by simp
  then show ?thesis
    unfolding c1_def .
qed

text \<open>
  C2. \<^verbatim>\<open>operator()(key, func)\<close>. If the key is present, the stored value is returned and
  the generator is not called: its outside state, and the call counter, are as before, and
  the cache is the promoted one. If the key is absent, the generator is called exactly once
  with the key; when it returns \<open>v\<close>, the element \<open>(key, v)\<close> is put at the front, the cache
  is trimmed and \<open>v\<close> is returned, and the key is then present with value \<open>v\<close>; when it throws,
  the exception propagates and the cache is exactly as before the call. A second call with
  the same key right after a call that generated the value returns that value without
  calling the generator: over the two calls the counter goes up by exactly one.
\<close>

theorem operator_call_generates_once:
  "(fst (get (c :: ('k, 'v) cache) k) = Some v0 \<longrightarrow>
      operator_call c k func g = (Inr v0, g, snd (get c k)) \<and>
      fst (snd (operator_call c k (counted func) (n, g))) = (n, g)) \<and>
   (k \<notin> set (fst (keys c)) \<and> func k g = (Inr v, g') \<longrightarrow>
      operator_call c k func g = (Inr v, g', priv_trim (c\<lparr>container := (k, v) # container c\<rparr>)) \<and>
      fst (snd (operator_call c k (counted func) (n, g))) = (Suc n, g') \<and>
      fst (keys (snd (snd (operator_call c k func g)))) =
        k # (if capacity c = 0 then fst (keys c) else take (capacity c - 1) (fst (keys c))) \<and>
      fst (get (snd (snd (operator_call c k func g))) k) = Some v \<and>
      operator_call (snd (snd (operator_call c k (counted func) (n, g)))) k (counted func)
          (fst (snd (operator_call c k (counted func) (n, g))))
        = (Inr v, (Suc n, g'), snd (snd (operator_call c k func g)))) \<and>
   (k \<notin> set (fst (keys c)) \<and> func k g = (Inl x, g') \<longrightarrow>
      operator_call c k func g = (Inl x, g', c) \<and>
      fst (snd (operator_call c k (counted func) (n, g))) = (Suc n, g'))"
proof -
  have p1: "operator_call c k func g = (Inr v0, g, snd (get c k)) \<and>
            fst (snd (operator_call c k (counted func) (n, g))) = (n, g)"
    if "fst (get c k) = Some v0"
  proof -
    from get_Some_find [OF that] obtain e where e: "hash_find (container c) k = Some e"
      and v: "snd e = v0"
      by auto
    show ?thesis
      by (simp add: operator_call_hit [OF e] get_hit [OF e] v)
  qed
  have p2: "operator_call c k func g = (Inr v, g', priv_trim (c\<lparr>container := (k, v) # container c\<rparr>)) \<and>
      fst (snd (operator_call c k (counted func) (n, g))) = (Suc n, g') \<and>
      fst (keys (snd (snd (operator_call c k func g)))) =
        k # (if capacity c = 0 then fst (keys c) else take (capacity c - 1) (fst (keys c))) \<and>
      fst (get (snd (snd (operator_call c k func g))) k) = Some v \<and>
      operator_call (snd (snd (operator_call c k (counted func) (n, g)))) k (counted func)
          (fst (snd (operator_call c k (counted func) (n, g))))
        = (Inr v, (Suc n, g'), snd (snd (operator_call c k func g)))"
    if a: "k \<notin> set (fst (keys c))" and f: "func k g = (Inr v, g')"
  proof -
    note m = absent_find [OF a]
    note cf = counted_apply [of func k g "Inr v" g' n, OF f]
    note o = operator_call_miss_value [of c k func g v g', OF m f]
    note oc = operator_call_miss_value [of c k "counted func" "(n, g)" v "(Suc n, g')", OF m cf]
    have cont: "container (snd (snd (operator_call c k func g))) =
                  (if capacity c = 0 then (k, v) # container c
                   else take (capacity c) ((k, v) # container c))"
      unfolding o by simp
    have same: "snd (snd (operator_call c k (counted func) (n, g))) = snd (snd (operator_call c k func g))"
      unfolding o oc by simp
    have st: "fst (snd (operator_call c k (counted func) (n, g))) = (Suc n, g')"
      unfolding oc by simp
    have twice: "operator_call (snd (snd (operator_call c k (counted func) (n, g)))) k (counted func)
          (fst (snd (operator_call c k (counted func) (n, g))))
        = (Inr v, (Suc n, g'), snd (snd (operator_call c k func g)))"
    proof -
      have "operator_call (snd (snd (operator_call c k (counted func) (n, g)))) k (counted func) (Suc n, g')
              = (Inr v, (Suc n, g'), snd (snd (operator_call c k (counted func) (n, g))))"
        by (rule operator_call_again [of c k "counted func" "(n, g)" v "(Suc n, g')", OF m cf])
      then show ?thesis
        unfolding st same .
    qed
    from operator_call_miss_value_trim [of c k func g v g', OF m f] st inserted_front_keys [OF cont]
      inserted_front_get [OF cont] twice
    show ?thesis
      by (intro conjI)
  qed
  have p3: "operator_call c k func g = (Inl x, g', c) \<and>
      fst (snd (operator_call c k (counted func) (n, g))) = (Suc n, g')"
    if a: "k \<notin> set (fst (keys c))" and f: "func k g = (Inl x, g')"
    using operator_call_miss_throw [of c k func g x g', OF absent_find [OF a] f]
      operator_call_miss_throw [of c k "counted func" "(n, g)" x "(Suc n, g')",
         OF absent_find [OF a] counted_apply [of func k g "Inl x" g' n, OF f]]
    by simp
  from p1 p2 p3 show ?thesis
    by blast
qed

theorem operator_call_generates_once_witness:
  "fst (get (add (Cache 2) ''A'' (10::nat)) ''A'') = Some 10 \<and>
   operator_call (add (Cache 2) ''A'' (10::nat)) ''A'' (\<lambda>k g. (Inr 99 :: string + nat, g + 1)) (5::nat) = (Inr 10, 5, snd (get (add (Cache 2) ''A'' (10::nat)) ''A'')) \<and>
   (''B'' \<notin> set (fst (keys (add (Cache 2) ''A'' (10::nat)))) \<and> (\<lambda>k g. (Inr 99 :: string + nat, g + 1)) ''B'' (5::nat) = (Inr 99, 6)) \<and>
   fst (operator_call (add (Cache 2) ''A'' (10::nat)) ''B'' (\<lambda>k g. (Inr 99 :: string + nat, g + 1)) (5::nat)) = Inr 99 \<and>
   fst (snd (operator_call (add (Cache 2) ''A'' (10::nat)) ''B'' (counted (\<lambda>k g. (Inr 99 :: string + nat, g + 1))) (0, 5::nat))) = (Suc 0, 6) \<and>
   fst (get (snd (snd (operator_call (add (Cache 2) ''A'' (10::nat)) ''B'' (\<lambda>k g. (Inr 99 :: string + nat, g + 1)) (5::nat)))) ''B'') = Some 99 \<and>
   fst (snd (operator_call (snd (snd (operator_call (add (Cache 2) ''A'' (10::nat)) ''B'' (counted (\<lambda>k g. (Inr 99 :: string + nat, g + 1))) (0, 5::nat)))) ''B'' (counted (\<lambda>k g. (Inr 99 :: string + nat, g + 1)))
               (fst (snd (operator_call (add (Cache 2) ''A'' (10::nat)) ''B'' (counted (\<lambda>k g. (Inr 99 :: string + nat, g + 1))) (0, 5::nat)))))) = (Suc 0, 6) \<and>
   (''B'' \<notin> set (fst (keys (add (Cache 2) ''A'' (10::nat)))) \<and> (\<lambda>k g. (Inl ''boom'' :: string + nat, g + 1)) ''B'' (5::nat) = (Inl ''boom'', 6)) \<and>
   operator_call (add (Cache 2) ''A'' (10::nat)) ''B'' (\<lambda>k g. (Inl ''boom'' :: string + nat, g + 1)) (5::nat) = (Inl ''boom'', 6, (add (Cache 2) ''A'' (10::nat)))"
proof -
  have h1: "fst (get (add (Cache 2) ''A'' (10::nat)) ''A'') = Some 10"
    by (simp add: cache_eval)
  have h2: "''B'' \<notin> set (fst (keys (add (Cache 2) ''A'' (10::nat)))) \<and> (\<lambda>k g. (Inr 99 :: string + nat, g + 1)) ''B'' (5::nat) = (Inr 99, 6)"
    by (simp add: cache_eval)
  have h3: "''B'' \<notin> set (fst (keys (add (Cache 2) ''A'' (10::nat)))) \<and> (\<lambda>k g. (Inl ''boom'' :: string + nat, g + 1)) ''B'' (5::nat) = (Inl ''boom'', 6)"
    by (simp add: cache_eval)
  note t1 = operator_call_generates_once [where c = "(add (Cache 2) ''A'' (10::nat))" and k = "''A''" and ?v0.0 = 10
      and func = "(\<lambda>k g. (Inr 99 :: string + nat, g + 1))" and g = "5::nat" and g' = "6::nat" and n = 0 and v = 99 and x = "''boom''"]
  note t2 = operator_call_generates_once [where c = "(add (Cache 2) ''A'' (10::nat))" and k = "''B''" and ?v0.0 = 10
      and func = "(\<lambda>k g. (Inr 99 :: string + nat, g + 1))" and g = "5::nat" and g' = "6::nat" and n = 0 and v = 99 and x = "''boom''"]
  note t3 = operator_call_generates_once [where c = "(add (Cache 2) ''A'' (10::nat))" and k = "''B''" and ?v0.0 = 10
      and func = "(\<lambda>k g. (Inl ''boom'' :: string + nat, g + 1))" and g = "5::nat" and g' = "6::nat" and n = 0 and v = 99 and x = "''boom''"]
  from t1 h1 have a: "operator_call (add (Cache 2) ''A'' (10::nat)) ''A'' (\<lambda>k g. (Inr 99 :: string + nat, g + 1)) (5::nat) = (Inr 10, 5, snd (get (add (Cache 2) ''A'' (10::nat)) ''A''))"
    by blast
  from t2 h2 have b: "operator_call (add (Cache 2) ''A'' (10::nat)) ''B'' (\<lambda>k g. (Inr 99 :: string + nat, g + 1)) (5::nat)
                        = (Inr 99, 6, priv_trim ((add (Cache 2) ''A'' (10::nat))\<lparr>container := (''B'', 99) # container (add (Cache 2) ''A'' (10::nat))\<rparr>))"
    by blast
  then have b': "fst (operator_call (add (Cache 2) ''A'' (10::nat)) ''B'' (\<lambda>k g. (Inr 99 :: string + nat, g + 1)) (5::nat)) = Inr 99"
    by simp
  from t2 h2 have c: "fst (snd (operator_call (add (Cache 2) ''A'' (10::nat)) ''B'' (counted (\<lambda>k g. (Inr 99 :: string + nat, g + 1))) (0, 5::nat))) = (Suc 0, 6)"
    by blast
  from t2 h2 have d: "fst (get (snd (snd (operator_call (add (Cache 2) ''A'' (10::nat)) ''B'' (\<lambda>k g. (Inr 99 :: string + nat, g + 1)) (5::nat)))) ''B'') = Some 99"
    by blast
  from t2 h2 have "operator_call (snd (snd (operator_call (add (Cache 2) ''A'' (10::nat)) ''B'' (counted (\<lambda>k g. (Inr 99 :: string + nat, g + 1))) (0, 5::nat)))) ''B'' (counted (\<lambda>k g. (Inr 99 :: string + nat, g + 1)))
               (fst (snd (operator_call (add (Cache 2) ''A'' (10::nat)) ''B'' (counted (\<lambda>k g. (Inr 99 :: string + nat, g + 1))) (0, 5::nat))))
             = (Inr 99, (Suc 0, 6), snd (snd (operator_call (add (Cache 2) ''A'' (10::nat)) ''B'' (\<lambda>k g. (Inr 99 :: string + nat, g + 1)) (5::nat))))"
    by blast
  then have e: "fst (snd (operator_call (snd (snd (operator_call (add (Cache 2) ''A'' (10::nat)) ''B'' (counted (\<lambda>k g. (Inr 99 :: string + nat, g + 1))) (0, 5::nat)))) ''B'' (counted (\<lambda>k g. (Inr 99 :: string + nat, g + 1)))
               (fst (snd (operator_call (add (Cache 2) ''A'' (10::nat)) ''B'' (counted (\<lambda>k g. (Inr 99 :: string + nat, g + 1))) (0, 5::nat)))))) = (Suc 0, 6)"
    by simp
  from t3 h3 have f: "operator_call (add (Cache 2) ''A'' (10::nat)) ''B'' (\<lambda>k g. (Inl ''boom'' :: string + nat, g + 1)) (5::nat) = (Inl ''boom'', 6, (add (Cache 2) ''A'' (10::nat)))"
    by blast
  from h1 a h2 b' c d e h3 f show ?thesis
    by (intro conjI) blast+
qed

section \<open>Sequences of calls and the capacity bound\<close>

lemma operator_call_cache:
  "snd (snd (operator_call c k func g)) =
     (case hash_find (container c) k of
        Some e \<Rightarrow> c\<lparr>container := relocate_begin (container c) e\<rparr>
      | None \<Rightarrow> (case fst (func k g) of Inl x \<Rightarrow> c | Inr v \<Rightarrow> priv_addNew c k v))"
  by (cases "func k g")
     (auto simp: operator_call_def priv_lookup_def split: option.splits sum.splits)

lemma operator_call_cache_outcome:
  "snd (snd (operator_call c k func g)) =
   snd (snd (operator_call c k (\<lambda>k' u. (map_sum (\<lambda>x. ()) id (fst (func k g)), u)) ()))"
  unfolding operator_call_cache
  by (cases "fst (func k g)") (simp_all split: option.splits)

lemma reachable_call: "reachable c \<Longrightarrow> reachable (snd (snd (operator_call c k func g)))"
  unfolding operator_call_cache_outcome [of c k func g] by (rule r_call)

lemma bounded_promote:
  "bounded c \<Longrightarrow> hash_find (container c) k = Some e \<Longrightarrow>
   bounded (c\<lparr>container := relocate_begin (container c) e\<rparr>)"
  using hash_find_Some [of "container c" k e]
  by (simp add: bounded_def capacity_def cache_size_def length_relocate)

lemma bounded_trim: "bounded (priv_trim c)"
  by (simp add: bounded_def priv_trim_eq capacity_def cache_size_def)

lemma bounded_lookup: "bounded c \<Longrightarrow> bounded (snd (priv_lookup c k))"
  by (cases "hash_find (container c) k") (simp_all add: priv_lookup_miss priv_lookup_hit bounded_promote)

lemma bounded_add: "bounded c \<Longrightarrow> bounded (add c k v)"
  using bounded_lookup [of c k]
  by (auto simp: add_def priv_addNew_def bounded_trim split: prod.splits)

lemma bounded_call: "bounded c \<Longrightarrow> bounded (snd (snd (operator_call c k func g)))"
  unfolding operator_call_cache
  by (auto simp: priv_addNew_def bounded_trim bounded_promote split: option.splits sum.splits)

lemma bounded_index: "bounded c \<Longrightarrow> bounded (snd (operator_index c k))"
  using bounded_lookup [of c k] by (auto simp: operator_index_def split: prod.splits)

lemma bounded_get: "bounded c \<Longrightarrow> bounded (snd (get c k))"
  using bounded_lookup [of c k] by (auto simp: get_def split: prod.splits)

lemma bounded_contains: "bounded c \<Longrightarrow> bounded (snd (contains c k))"
  using bounded_lookup [of c k] by (auto simp: contains_def split: prod.splits)

lemma reachable_bounded: "reachable c \<Longrightarrow> bounded c"
proof (induction rule: reachable.induct)
  case (r_Cache n)
  show ?case by (simp add: bounded_def Cache_def cache_size_def)
next
  case (r_reserve c n)
  show ?case by (simp add: reserve_def bounded_trim)
next
  case (r_flush c)
  show ?case by (simp add: bounded_def flush_container cache_size_def)
qed (simp_all add: bounded_add bounded_call bounded_index bounded_get bounded_contains)

lemma step_reachable: "reachable (fst s) \<Longrightarrow> reachable (fst (step s x))"
proof (cases s)
  case (Pair c g)
  assume "reachable (fst s)"
  with Pair have r: "reachable c" by simp
  show ?thesis
  proof (cases x)
    case (Add k v)
    with Pair r show ?thesis by (simp add: r_add)
  next
    case (GetOrCompute k func)
    have "fst (step (c, g) (GetOrCompute k func)) = snd (snd (operator_call c k func g))"
      by (simp split: prod.splits)
    with Pair GetOrCompute reachable_call [OF r, of k func g] show ?thesis by simp
  qed
qed

lemma run_reachable: "reachable (fst s) \<Longrightarrow> \<forall>s' \<in> set (run s calls). reachable (fst s')"
proof (induction calls arbitrary: s)
  case Nil
  show ?case by simp
next
  case (Cons x xs)
  from step_reachable [OF Cons.prems] have r: "reachable (fst (step s x))" .
  from Cons.IH [OF r] r show ?case by simp
qed

lemma add_cache:
  "add c k v =
     (case hash_find (container c) k of
        Some e \<Rightarrow> c\<lparr>container := relocate_begin (container c) e\<rparr>
      | None \<Rightarrow> priv_addNew c k v)"
  by (simp add: add_def priv_lookup_def split: option.splits)

lemma step_cache:
  "fst (step (c, g) x) =
     (case hash_find (container c) (call_key x) of
        Some e \<Rightarrow> c\<lparr>container := relocate_begin (container c) e\<rparr>
      | None \<Rightarrow>
          (case x of
             Add k v \<Rightarrow> priv_addNew c k v
           | GetOrCompute k func \<Rightarrow>
               (case fst (func k g) of Inl e \<Rightarrow> c | Inr v \<Rightarrow> priv_addNew c k v)))"
proof (cases x)
  case (Add k v)
  then show ?thesis
    by (simp add: add_cache split: option.splits)
next
  case (GetOrCompute k func)
  have "fst (step (c, g) (GetOrCompute k func)) = snd (snd (operator_call c k func g))"
    by (simp split: prod.splits)
  with GetOrCompute show ?thesis
    by (simp add: operator_call_cache split: option.splits)
qed

lemma priv_addNew_capacity: "capacity (priv_addNew c k v) = capacity c"
  by (simp add: priv_addNew_def priv_trim_eq capacity_def)

lemma promoted_capacity: "capacity (c\<lparr>container := xs\<rparr>) = capacity c"
  by (simp add: capacity_def)

lemma step_capacity: "capacity (fst (step s x)) = capacity (fst s)"
proof (cases s)
  case (Pair c g)
  have "capacity (fst (step (c, g) x)) = capacity c"
    unfolding step_cache
    by (simp add: priv_addNew_capacity promoted_capacity split: option.splits call.splits sum.splits)
  with Pair show ?thesis
    by simp
qed

lemma run_capacity: "\<forall>s' \<in> set (run s calls). capacity (fst s') = capacity (fst s)"
proof (induction calls arbitrary: s)
  case Nil
  show ?case by simp
next
  case (Cons x xs)
  from Cons.IH [of "step s x"] show ?case
    by (simp add: step_capacity)
qed

lemma priv_addNew_unbounded:
  "capacity c = 0 \<Longrightarrow> hash_find (container c) k = None \<Longrightarrow>
   container (priv_addNew c k v) = (k, v) # container c"
  by (simp add: priv_addNew_miss)

lemma step_unbounded:
  assumes "capacity c = 0"
  shows "set (container c) \<subseteq> set (container (fst (step (c, g) x))) \<and>
         cache_size c \<le> cache_size (fst (step (c, g) x))"
proof (cases "hash_find (container c) (call_key x)")
  case None
  with assms show ?thesis
    by (auto simp: step_cache priv_addNew_unbounded cache_size_def split: call.splits sum.splits)
next
  case (Some e)
  with hash_find_Some [OF Some] show ?thesis
    by (simp add: step_cache set_relocate cache_size_def length_relocate)
qed

lemma run_unbounded:
  "capacity (fst s) = 0 \<Longrightarrow>
   \<forall>s' \<in> set (run s calls). capacity (fst s') = 0 \<and>
      set (container (fst s)) \<subseteq> set (container (fst s')) \<and>
      cache_size (fst s) \<le> cache_size (fst s')"
proof (induction calls arbitrary: s)
  case Nil
  show ?case by simp
next
  case (Cons x xs)
  obtain c g where s: "s = (c, g)"
    by (cases s)
  from Cons.prems s have c0: "capacity c = 0"
    by simp
  note one = step_unbounded [OF c0, of g x]
  have c1: "capacity (fst (step s x)) = 0"
    using Cons.prems by (simp add: step_capacity)
  from Cons.IH [OF c1] one c1 show ?case
    unfolding s by (auto simp: subset_iff)
qed

lemma step_insert:
  assumes "capacity c = 0" and "call_key x \<notin> set (fst (keys c))" and "yields x g"
  shows "\<exists>v. container (fst (step (c, g) x)) = (call_key x, v) # container c"
proof -
  note n = absent_find [OF assms(2)]
  have "fst (step (c, g) x) =
          (case x of
             Add k v \<Rightarrow> priv_addNew c k v
           | GetOrCompute k func \<Rightarrow>
               (case fst (func k g) of Inl e \<Rightarrow> c | Inr v \<Rightarrow> priv_addNew c k v))"
    by (simp add: step_cache n)
  with assms(3) n show ?thesis
    by (cases x) (auto simp: priv_addNew_unbounded [OF assms(1)] split: sum.splits)
qed

lemma foldl_step_inserts:
  "capacity (fst s) = 0 \<Longrightarrow> distinct (map call_key calls) \<Longrightarrow>
   \<forall>x \<in> set calls. call_key x \<notin> set (fst (keys (fst s))) \<and> (\<forall>g. yields x g) \<Longrightarrow>
   fst (keys (fst (foldl step s calls))) = rev (map call_key calls) @ fst (keys (fst s))"
proof (induction calls arbitrary: s)
  case Nil
  show ?case by simp
next
  case (Cons x xs)
  obtain c g where s: "s = (c, g)"
    by (cases s)
  from Cons.prems s have c0: "capacity c = 0" and a: "call_key x \<notin> set (fst (keys c))"
    and y: "yields x g"
    by simp_all
  from step_insert [OF c0 a y] obtain v
    where v: "container (fst (step (c, g) x)) = (call_key x, v) # container c"
    by blast
  then have ks: "fst (keys (fst (step s x))) = call_key x # fst (keys (fst s))"
    unfolding s by (simp add: keys_map)
  have c1: "capacity (fst (step s x)) = 0"
    using Cons.prems(1) by (simp add: step_capacity)
  have d: "distinct (map call_key xs)"
    using Cons.prems(2) by simp
  have fresh: "\<forall>x' \<in> set xs. call_key x' \<notin> set (fst (keys (fst (step s x)))) \<and> (\<forall>g. yields x' g)"
  proof
    fix x' assume x': "x' \<in> set xs"
    from Cons.prems(2) x' have "call_key x' \<noteq> call_key x"
      by (auto simp: image_iff)
    with Cons.prems(3) x'
    show "call_key x' \<notin> set (fst (keys (fst (step s x)))) \<and> (\<forall>g. yields x' g)"
      unfolding ks by simp
  qed
  from Cons.IH [OF c1 d fresh] show ?case
    unfolding ks by simp
qed

lemma run_last: "last (s # run s calls) = foldl step s calls"
  by (induction calls arbitrary: s) simp_all

text \<open>
  C1. For every sequence of \<^verbatim>\<open>add\<close> and \<^verbatim>\<open>operator()\<close> calls that starts in a state of a
  cache object, after each call the capacity is what it was and, if it is positive, the size
  is at most the capacity. With capacity 0 the cache is unbounded: from any state, after
  each call every element that was in the cache is still there and the size has not gone
  down; and when the calls insert \<open>N\<close> distinct keys that were absent (each \<^verbatim>\<open>add\<close>, and each
  \<^verbatim>\<open>operator()\<close> whose generator returns a value), the keys are these \<open>N\<close> keys, the last one
  first, in front of the former keys, so the size has grown by \<open>N\<close>: starting from the empty
  cache it is \<open>N\<close>.
\<close>

theorem capacity_bound_and_unbounded_mode:
  "(reachable c \<longrightarrow>
      (\<forall>s \<in> set (run (c, g) calls).
         capacity (fst s) = capacity c \<and>
         (0 < capacity (fst s) \<longrightarrow> cache_size (fst s) \<le> capacity (fst s)))) \<and>
   (capacity c = 0 \<longrightarrow>
      (\<forall>s \<in> set (run (c, g) calls).
         capacity (fst s) = 0 \<and>
         set (container c) \<subseteq> set (container (fst s)) \<and>
         cache_size c \<le> cache_size (fst s))) \<and>
   last ((c, g) # run (c, g) calls) = foldl step (c, g) calls \<and>
   (capacity c = 0 \<and> distinct (map call_key calls) \<and>
    (\<forall>x \<in> set calls. call_key x \<notin> set (fst (keys c)) \<and> (\<forall>g. yields x g)) \<longrightarrow>
      fst (keys (fst (foldl step (c, g) calls))) = rev (map call_key calls) @ fst (keys c) \<and>
      cache_size (fst (foldl step (c, g) calls)) = cache_size c + length calls) \<and>
   (distinct (map call_key calls) \<and> (\<forall>x \<in> set calls. \<forall>g. yields x g) \<longrightarrow>
      cache_size (fst (foldl step (Cache 0, g) calls)) = length calls)"
proof -
  have p1: "\<forall>s \<in> set (run (c, g) calls).
         capacity (fst s) = capacity c \<and>
         (0 < capacity (fst s) \<longrightarrow> cache_size (fst s) \<le> capacity (fst s))"
    if r: "reachable c"
  proof
    fix s assume s: "s \<in> set (run (c, g) calls)"
    from run_reachable [of "(c, g)" calls] r s have "bounded (fst s)"
      by (simp add: reachable_bounded)
    moreover from run_capacity [of "(c, g)" calls] s have "capacity (fst s) = capacity c"
      by simp
    ultimately show "capacity (fst s) = capacity c \<and>
         (0 < capacity (fst s) \<longrightarrow> cache_size (fst s) \<le> capacity (fst s))"
      by (simp add: bounded_def)
  qed
  have p2: "\<forall>s \<in> set (run (c, g) calls).
         capacity (fst s) = 0 \<and>
         set (container c) \<subseteq> set (container (fst s)) \<and>
         cache_size c \<le> cache_size (fst s)"
    if "capacity c = 0"
    using run_unbounded [of "(c, g)" calls] that by simp
  have ins: "fst (keys (fst (foldl step (c, g) calls))) = rev (map call_key calls) @ fst (keys c) \<and>
      cache_size (fst (foldl step (c, g) calls)) = cache_size c + length calls"
    if "capacity c = 0" and "distinct (map call_key calls)"
      and "\<forall>x \<in> set calls. call_key x \<notin> set (fst (keys c)) \<and> (\<forall>g. yields x g)"
    for c :: "('a, 'b) cache"
  proof -
    from foldl_step_inserts [of "(c, g)" calls] that
    have k: "fst (keys (fst (foldl step (c, g) calls))) = rev (map call_key calls) @ fst (keys c)"
      by simp
    have "cache_size c' = length (fst (keys c'))" for c' :: "('a, 'b) cache"
      by (simp add: keys_map cache_size_def)
    with k show ?thesis
      by simp
  qed
  have p4: "cache_size (fst (foldl step (Cache 0, g) calls)) = length calls"
    if "distinct (map call_key calls)" and "\<forall>x \<in> set calls. \<forall>g. yields x g"
    using ins [of "Cache 0"] that by (simp add: Cache_def capacity_def keys_map cache_size_def)
  from p1 p2 run_last [of "(c, g)" calls] ins [of c] p4 show ?thesis
    by blast
qed

theorem capacity_bound_and_unbounded_mode_witness:
  "reachable (Cache 2 :: (string, nat) cache) \<and>
   list_all (\<lambda>s. capacity (fst s) = 2 \<and> 0 < capacity (fst s) \<and> cache_size (fst s) \<le> capacity (fst s))
     (run (Cache 2, 5::nat) [Add ''A'' 10, GetOrCompute ''B'' (\<lambda>k (g::nat). (Inr 20 :: string + nat, g + 1)), Add ''C'' 30]) \<and>
   map (\<lambda>s. fst (keys (fst s))) (run (Cache 2, 5::nat) [Add ''A'' 10, GetOrCompute ''B'' (\<lambda>k (g::nat). (Inr 20 :: string + nat, g + 1)), Add ''C'' 30])
     = [[''A''], [''B'', ''A''], [''C'', ''B'']] \<and>
   distinct (map call_key [Add ''A'' 10, GetOrCompute ''B'' (\<lambda>k (g::nat). (Inr 20 :: string + nat, g + 1)), Add ''C'' 30]) \<and>
   list_all (\<lambda>x. \<forall>g. yields x g) [Add ''A'' 10, GetOrCompute ''B'' (\<lambda>k (g::nat). (Inr 20 :: string + nat, g + 1)), Add ''C'' 30] \<and>
   cache_size (fst (foldl step (Cache 0, 5::nat) [Add ''A'' 10, GetOrCompute ''B'' (\<lambda>k (g::nat). (Inr 20 :: string + nat, g + 1)), Add ''C'' 30])) = length [Add ''A'' 10, GetOrCompute ''B'' (\<lambda>k (g::nat). (Inr 20 :: string + nat, g + 1)), Add ''C'' 30] \<and>
   fst (keys (fst (foldl step (Cache 0, 5::nat) [Add ''A'' 10, GetOrCompute ''B'' (\<lambda>k (g::nat). (Inr 20 :: string + nat, g + 1)), Add ''C'' 30]))) = [''C'', ''B'', ''A'']"
proof -
  have h1: "reachable (Cache 2 :: (string, nat) cache)"
    by (rule r_Cache)
  have h2: "distinct (map call_key [Add ''A'' 10, GetOrCompute ''B'' (\<lambda>k (g::nat). (Inr 20 :: string + nat, g + 1)), Add ''C'' 30]) \<and> (\<forall>x \<in> set [Add ''A'' 10, GetOrCompute ''B'' (\<lambda>k (g::nat). (Inr 20 :: string + nat, g + 1)), Add ''C'' 30]. \<forall>g. yields x g)"
    by auto
  have e1: "map (\<lambda>s. fst (keys (fst s))) (run (Cache 2, 5::nat) [Add ''A'' 10, GetOrCompute ''B'' (\<lambda>k (g::nat). (Inr 20 :: string + nat, g + 1)), Add ''C'' 30])
     = [[''A''], [''B'', ''A''], [''C'', ''B'']]"
    by (simp add: cache_eval)
  have e2: "fst (keys (fst (foldl step (Cache 0, 5::nat) [Add ''A'' 10, GetOrCompute ''B'' (\<lambda>k (g::nat). (Inr 20 :: string + nat, g + 1)), Add ''C'' 30]))) = [''C'', ''B'', ''A'']"
    by (simp add: cache_eval)
  have cap: "capacity (Cache 2 :: (string, nat) cache) = 2"
    by (simp add: cache_eval)
  note t = capacity_bound_and_unbounded_mode [where c = "Cache 2 :: (string, nat) cache"
             and g = "5::nat" and calls = "[Add ''A'' 10, GetOrCompute ''B'' (\<lambda>k (g::nat). (Inr 20 :: string + nat, g + 1)), Add ''C'' 30]"]
  have a: "\<forall>s \<in> set (run (Cache 2, 5::nat) [Add ''A'' 10, GetOrCompute ''B'' (\<lambda>k (g::nat). (Inr 20 :: string + nat, g + 1)), Add ''C'' 30]).
      capacity (fst s) = capacity (Cache 2 :: (string, nat) cache) \<and>
      (0 < capacity (fst s) \<longrightarrow> cache_size (fst s) \<le> capacity (fst s))"
    by (rule t [THEN conjunct1, THEN mp, OF h1])
  have a': "list_all (\<lambda>s. capacity (fst s) = 2 \<and> 0 < capacity (fst s) \<and> cache_size (fst s) \<le> capacity (fst s))
     (run (Cache 2, 5::nat) [Add ''A'' 10, GetOrCompute ''B'' (\<lambda>k (g::nat). (Inr 20 :: string + nat, g + 1)), Add ''C'' 30])"
    unfolding list_all_iff
  proof
    fix s assume "s \<in> set (run (Cache 2, 5::nat) [Add ''A'' 10, GetOrCompute ''B'' (\<lambda>k (g::nat). (Inr 20 :: string + nat, g + 1)), Add ''C'' 30])"
    with a have "capacity (fst s) = capacity (Cache 2 :: (string, nat) cache) \<and>
      (0 < capacity (fst s) \<longrightarrow> cache_size (fst s) \<le> capacity (fst s))"
      by (rule bspec)
    then show "capacity (fst s) = 2 \<and> 0 < capacity (fst s) \<and> cache_size (fst s) \<le> capacity (fst s)"
      unfolding cap by auto
  qed
  have b: "cache_size (fst (foldl step (Cache 0, 5::nat) [Add ''A'' 10, GetOrCompute ''B'' (\<lambda>k (g::nat). (Inr 20 :: string + nat, g + 1)), Add ''C'' 30])) = length [Add ''A'' 10, GetOrCompute ''B'' (\<lambda>k (g::nat). (Inr 20 :: string + nat, g + 1)), Add ''C'' 30]"
    by (rule t [THEN conjunct2, THEN conjunct2, THEN conjunct2, THEN conjunct2, THEN mp, OF h2])
  note h2a = h2 [THEN conjunct1]
  have h2b: "list_all (\<lambda>x. \<forall>g. yields x g) [Add ''A'' 10, GetOrCompute ''B'' (\<lambda>k (g::nat). (Inr 20 :: string + nat, g + 1)), Add ''C'' 30]"
    unfolding list_all_iff by (rule h2 [THEN conjunct2])
  from h1 a' e1 h2a h2b b e2 show ?thesis
    by (intro conjI)
qed

end
